theory Spec2Isabelle
  imports Complex_Main "HOL-Library.Multiset" "HOL-Library.Option_ord"
begin

section \<open>Objects and the store\<close>

text \<open>
  The Python program works on mutable objects that are shared by reference: a
  population holds a list of references to \<open>Individual\<close> objects, and the same object
  may stand at several positions of that list (after \<open>survive(luck=True)\<close>, which
  samples with replacement) or in several populations (before \<open>deepcopy\<close>). The
  embedding therefore keeps an explicit store: a reference is an index into a list
  of individuals, a new object is appended at the end, and a field assignment is a
  list update. A population is a record of its attributes; its \<open>individuals\<close>
  attribute is a list of references.
\<close>

type_synonym ref = nat

text \<open>
  Modelled from the spec: the class \<open>Individual\<close> (imported from the package
  \<open>evol\<close>, not part of \<open>population.py\<close>). The spec's data model gives it a
  \<open>chromosome\<close> and a nullable \<open>fitness\<close> that is \<open>None\<close> on construction.
  The type \<open>'f\<close> of the fitness values, the numbers the objective returns, is a
  parameter. \<open>survive\<close> compares them, and is modelled for values that Python orders
  totally, as it does integers, fractions and the floats other than NaN; the
  tournament adds them, and is modelled for integers.
\<close>

record ('c, 'f) individual =
  chromosome :: 'c
  fitness :: "'f option"

type_synonym ('c, 'f) heap = "('c, 'f) individual list"

datatype error = ValueError | RuntimeError | TypeError | IndexError | OverflowError

text \<open>
  The attributes set by \<open>Population.__init__\<close>, in the order of the source. The type
  parameter \<open>'e\<close> is the type of the objective: one chromosome to a score for a plain
  population, the competitors of a match to their scores for a contest population.
\<close>

record 'e population =
  eval_function :: 'e
  generation :: int
  individuals :: "ref list"
  intended_size :: int
  maximize :: bool

record 'e contest_population = "'e population" +
  matches_per_round :: int
  individuals_per_match :: int

definition Individual :: "'c \<Rightarrow> ('c, 'f) individual" where
  "Individual c = \<lparr>chromosome = c, fitness = None\<rparr>"

text \<open>
  Modelled from the spec: the method \<open>Individual.evaluate(eval_function, lazy)\<close>,
  which \<open>Population.evaluate\<close> calls on every individual. Spec 4.1: "for every
  individual whose fitness is None, or unconditionally if lazy=False, invoke
  eval_function(chromosome) and store the numeric result as fitness".
\<close>

definition individual_evaluate :: "('c \<Rightarrow> 'f) \<Rightarrow> bool \<Rightarrow> ('c, 'f) individual \<Rightarrow> ('c, 'f) individual" where
  "individual_evaluate ef lazy ind =
     (if fitness ind = None \<or> \<not> lazy then ind\<lparr>fitness := Some (ef (chromosome ind))\<rparr> else ind)"

text \<open>A state is the store together with the attributes of the population at hand.\<close>

definition well_formed :: "('c, 'f) heap \<times> ('e, 'z) population_scheme \<Rightarrow> bool" where
  "well_formed s = list_all (\<lambda>a. a < length (fst s)) (individuals (snd s))"

section \<open>Population\<close>

text \<open>
  \<open>Population.__init__\<close>: one new \<open>Individual\<close> per chromosome, in order;
  \<open>intended_size\<close> is the number of chromosomes.
\<close>

definition Population :: "('c, 'f) heap \<Rightarrow> 'c list \<Rightarrow> 'e \<Rightarrow> bool \<Rightarrow> ('c, 'f) heap \<times> 'e population" where
  "Population h chromosomes ef mx =
     (h @ map Individual chromosomes,
      \<lparr>eval_function = ef, generation = 0,
       individuals = [length h..<length h + length chromosomes],
       intended_size = int (length chromosomes), maximize = mx\<rparr>)"

text \<open>
  \<open>Population.evaluate\<close>: the loop over \<open>self.individuals\<close>, each step assigning to
  the object the reference points to.
\<close>

definition evaluate ::
  "bool \<Rightarrow> ('c, 'f) heap \<times> ('c \<Rightarrow> 'f, 'z) population_scheme \<Rightarrow> ('c, 'f) heap \<times> ('c \<Rightarrow> 'f, 'z) population_scheme" where
  "evaluate lazy s =
     (fold (\<lambda>a h. h[a := individual_evaluate (eval_function (snd s)) lazy (h ! a)])
        (individuals (snd s)) (fst s), snd s)"

subsection \<open>survive\<close>

text \<open>
  The argument \<open>fraction\<close> is used in one expression only,
  \<open>round(fraction*len(self.individuals))\<close> of lines 91 and 93, and what that yields
  is a matter of the arithmetic of the type of \<open>fraction\<close>: the product of a float is
  rounded to a float before \<open>round\<close> sees it, and \<open>round\<close> raises \<open>OverflowError\<close> on an
  infinite float and \<open>ValueError\<close> on NaN. A fraction is therefore given by this
  expression as a function of the length: the integer it yields, or the error it raises.
\<close>

type_synonym fraction = "nat \<Rightarrow> error + int"

text \<open>\<open>round\<close> of Python 3 on an exact number rounds a half to the even neighbour.\<close>

definition py_round :: "rat \<Rightarrow> int" where
  "py_round q =
     (let f = \<lfloor>q\<rfloor>; d = q - of_int f
      in if d < 1 / 2 then f else if 1 / 2 < d then f + 1 else if even f then f else f + 1)"

text \<open>
  A fraction that is an \<open>int\<close> or a \<open>fractions.Fraction\<close>: the product is exact. This
  is also what a float gives whenever its product with the length is exact.
\<close>

definition Fraction :: "rat \<Rightarrow> fraction" where
  "Fraction q len = Inr (py_round (q * of_nat len))"

text \<open>
  The float \<open>inf\<close>: its product with 0 is NaN, its product with any other length is
  \<open>inf\<close>.
\<close>

definition float_inf :: fraction where
  "float_inf len = (if len = 0 then Inl ValueError else Inl OverflowError)"

text \<open>
  Lines 86 to 93: the target size, or the \<open>ValueError\<close> when neither argument is
  given, or the error of \<open>round\<close>.
\<close>

definition resulting_size :: "fraction option \<Rightarrow> int option \<Rightarrow> nat \<Rightarrow> error + int" where
  "resulting_size fraction n len =
     (case fraction of
        None \<Rightarrow> (case n of None \<Rightarrow> Inl ValueError | Some k \<Rightarrow> Inr k)
      | Some f \<Rightarrow>
          (case n of
             None \<Rightarrow> f len
           | Some k \<Rightarrow> (case f len of Inl e \<Rightarrow> Inl e | Inr r \<Rightarrow> Inr (min r k))))"

text \<open>
  \<open>sorted(xs, key=..., reverse=r)\<close> for keys that are ordered totally: Python's sort
  is stable, and with \<open>reverse=True\<close> it reverses the list, sorts it stably in
  ascending order and reverses the result, so that equal keys keep their order in
  both directions.
\<close>

definition sorted_py :: "('a \<Rightarrow> 'k :: linorder) \<Rightarrow> bool \<Rightarrow> 'a list \<Rightarrow> 'a list" where
  "sorted_py key reverse xs = (if reverse then rev (sort_key key (rev xs)) else sort_key key xs)"

text \<open>The slice \<open>xs[:k]\<close>; a negative \<open>k\<close> counts from the end.\<close>

definition slice_to :: "int \<Rightarrow> 'a list \<Rightarrow> 'a list" where
  "slice_to k xs = (if 0 \<le> k then take (nat k) xs else take (nat (int (length xs) + k)) xs)"

text \<open>
  \<open>Population.survive\<close>. Two things are parameters. \<open>ev\<close> is the call
  \<open>self.evaluate(lazy=True)\<close> of line 94, which Python dispatches to the class of
  \<open>self\<close>. \<open>choices\<close> is the library function \<open>random.choices\<close>, applied to the
  population, the weights and \<open>k\<close>; it returns the sampled list or raises.
  The sort key of line 103 is \<open>x.fitness\<close>, a number or \<open>None\<close>. Comparing
  \<open>None\<close> with anything raises \<open>TypeError\<close> in Python 3: sorting two or more
  individuals one of which has no fitness fails; in a shorter list no key is ever
  compared, so the place of \<open>None\<close> in the order of the keys plays no role.
\<close>

definition survive_with ::
  "(('c, 'f :: linorder) heap \<times> ('e, 'z) population_scheme \<Rightarrow> error + ('c, 'f) heap \<times> ('e, 'z) population_scheme) \<Rightarrow>
   (ref list \<Rightarrow> 'f option list \<Rightarrow> int \<Rightarrow> error + ref list) \<Rightarrow>
   fraction option \<Rightarrow> int option \<Rightarrow> bool \<Rightarrow>
   ('c, 'f) heap \<times> ('e, 'z) population_scheme \<Rightarrow> error + ('c, 'f) heap \<times> ('e, 'z) population_scheme" where
  "survive_with ev choices fraction n luck s =
     (case resulting_size fraction n (length (individuals (snd s))) of
        Inl e \<Rightarrow> Inl e
      | Inr rs \<Rightarrow>
          (case ev s of
             Inl e \<Rightarrow> Inl e
           | Inr (h, p) \<Rightarrow>
               if rs = 0 then Inl RuntimeError
               else if int (length (individuals p)) < rs then Inl ValueError
               else if luck then
                 (case choices (individuals p) (map (\<lambda>a. fitness (h ! a)) (individuals p)) rs of
                    Inl e \<Rightarrow> Inl e
                  | Inr chosen \<Rightarrow> Inr (h, p\<lparr>individuals := chosen\<rparr>))
               else if 2 \<le> length (individuals p) \<and> list_ex (\<lambda>a. fitness (h ! a) = None) (individuals p)
               then Inl TypeError
               else Inr (h, p\<lparr>individuals :=
                      slice_to rs (sorted_py (\<lambda>a. fitness (h ! a)) (maximize p) (individuals p))\<rparr>)))"

definition survive ::
  "(ref list \<Rightarrow> 'f option list \<Rightarrow> int \<Rightarrow> error + ref list) \<Rightarrow>
   fraction option \<Rightarrow> int option \<Rightarrow> bool \<Rightarrow>
   ('c, 'f :: linorder) heap \<times> ('c \<Rightarrow> 'f, 'z) population_scheme \<Rightarrow>
   error + ('c, 'f) heap \<times> ('c \<Rightarrow> 'f, 'z) population_scheme" where
  "survive = survive_with (\<lambda>s. Inr (evaluate True s))"

text \<open>
  A sampler that returns normally, driven by a tape of draws: the \<open>i\<close>-th sampled
  element is the one at position \<open>picks i\<close> (reduced to the length of the population).
\<close>

definition tape_choices :: "(nat \<Rightarrow> nat) \<Rightarrow> ref list \<Rightarrow> 'w list \<Rightarrow> int \<Rightarrow> error + ref list" where
  "tape_choices picks pop weights k =
     (if pop = [] then Inl IndexError
      else Inr (map (\<lambda>i. pop ! (picks i mod length pop)) [0..<nat k]))"

text \<open>
  What the library promises of \<open>random.choices(population, weights, k)\<close> when it
  returns: \<open>k\<close> elements (none for a negative \<open>k\<close>), each taken from the population.
\<close>

definition sampler_ok :: "(ref list \<Rightarrow> 'w list \<Rightarrow> int \<Rightarrow> error + ref list) \<Rightarrow> bool" where
  "sampler_ok choices =
     (\<forall>pop weights k chosen. choices pop weights k = Inr chosen \<longrightarrow>
        set chosen \<subseteq> set pop \<and> length chosen = nat k)"

text \<open>
  The checks of \<open>random.choices(population, weights, k=k)\<close> in Python 3.9 and
  later, in their order. The weights are accumulated, which adds each weight to the
  running total (\<open>TypeError\<close> when there are two or more weights and one of them is
  \<open>None\<close>); the number of accumulated weights must be that of the population
  (\<open>ValueError\<close>); the total is read as the last accumulated weight (\<open>IndexError\<close>
  when there is none) and converted to a float (\<open>TypeError\<close> for a single weight
  \<open>None\<close>); and it must be greater than zero (\<open>ValueError\<close>). Then \<open>k\<close> elements
  are drawn.
\<close>

definition strict_choices :: "(nat \<Rightarrow> nat) \<Rightarrow> ref list \<Rightarrow> int option list \<Rightarrow> int \<Rightarrow> error + ref list" where
  "strict_choices picks pop weights k =
     (if 2 \<le> length weights \<and> list_ex (\<lambda>w. w = None) weights then Inl TypeError
      else if length weights \<noteq> length pop then Inl ValueError
      else if weights = [] then Inl IndexError
      else if list_ex (\<lambda>w. w = None) weights then Inl TypeError
      else if sum_list (map (\<lambda>w. case w of Some x \<Rightarrow> x | None \<Rightarrow> 0) weights) \<le> 0 then Inl ValueError
      else tape_choices picks pop weights k)"

subsection \<open>map and filter\<close>

text \<open>
  \<open>Population.map\<close>: the list comprehension calls \<open>func\<close> on every individual in
  order. \<open>func\<close> receives an object and returns an object, which may be the same one
  (changed in place), another existing one or a new one: it is a function of the store
  and a reference that returns the new store and a reference.
\<close>

primrec map_loop :: "(('c, 'f) heap \<Rightarrow> ref \<Rightarrow> ('c, 'f) heap \<times> ref) \<Rightarrow> ref list \<Rightarrow> ('c, 'f) heap \<Rightarrow> ('c, 'f) heap \<times> ref list" where
  "map_loop func [] h = (h, [])"
| "map_loop func (a # as) h =
     (case func h a of (h1, b) \<Rightarrow> (case map_loop func as h1 of (h2, bs) \<Rightarrow> (h2, b # bs)))"

definition map_pop ::
  "(('c, 'f) heap \<Rightarrow> ref \<Rightarrow> ('c, 'f) heap \<times> ref) \<Rightarrow> ('c, 'f) heap \<times> ('e, 'z) population_scheme \<Rightarrow> ('c, 'f) heap \<times> ('e, 'z) population_scheme" where
  "map_pop func s =
     (case map_loop func (individuals (snd s)) (fst s) of
        (h', bs) \<Rightarrow> (h', (snd s)\<lparr>individuals := bs\<rparr>))"

text \<open>\<open>Population.filter\<close>: \<open>func\<close> is a predicate on the individual as it is in the store.\<close>

definition filter_pop ::
  "(('c, 'f) individual \<Rightarrow> bool) \<Rightarrow> ('c, 'f) heap \<times> ('e, 'z) population_scheme \<Rightarrow> ('c, 'f) heap \<times> ('e, 'z) population_scheme" where
  "filter_pop func s = (fst s, (snd s)\<lparr>individuals := filter (\<lambda>a. func (fst s ! a)) (individuals (snd s))\<rparr>)"

subsection \<open>breed\<close>

text \<open>
  What \<open>parent_picker\<close> returns: one individual, or a sequence of them (line 120 wraps
  a result without \<open>__len__\<close> into a list).
\<close>

datatype 'a picked = Single 'a | Seq "'a list"

definition parents_list :: "'a picked \<Rightarrow> 'a list" where
  "parents_list parents = (case parents of Single x \<Rightarrow> [x] | Seq xs \<Rightarrow> xs)"

text \<open>The test \<open>if population_size:\<close> of line 114, for \<open>None\<close> or an integer.\<close>

definition truthy :: "int option \<Rightarrow> bool" where
  "truthy v = (case v of None \<Rightarrow> False | Some k \<Rightarrow> k \<noteq> 0)"

text \<open>
  One pass of the loop of lines 118 to 123. \<open>parent_picker\<close> and \<open>combiner\<close> stand
  for the callables with their keyword arguments already filtered and applied
  (\<open>select_arguments\<close>); they may be randomised, so they also take the number \<open>k\<close> of
  the call. The picker sees the individuals of the slice
  \<open>self.individuals[:size_before_breed]\<close> as they are in the store at the call.
\<close>

definition breed_step ::
  "(nat \<Rightarrow> ('c, 'f) individual list \<Rightarrow> ('c, 'f) individual picked) \<Rightarrow> (nat \<Rightarrow> 'c list \<Rightarrow> 'c) \<Rightarrow> nat \<Rightarrow> nat \<Rightarrow>
   ('c, 'f) heap \<times> ('e, 'z) population_scheme \<Rightarrow> ('c, 'f) heap \<times> ('e, 'z) population_scheme" where
  "breed_step parent_picker combiner size_before_breed k s =
     (let parents = parents_list (parent_picker k (map (\<lambda>a. fst s ! a) (take size_before_breed (individuals (snd s)))));
          chromosomes = map chromosome parents
      in (fst s @ [Individual (combiner k chromosomes)],
          (snd s)\<lparr>individuals := individuals (snd s) @ [length (fst s)]\<rparr>))"

definition breed ::
  "(nat \<Rightarrow> ('c, 'f) individual list \<Rightarrow> ('c, 'f) individual picked) \<Rightarrow> (nat \<Rightarrow> 'c list \<Rightarrow> 'c) \<Rightarrow> int option \<Rightarrow>
   ('c, 'f) heap \<times> ('e, 'z) population_scheme \<Rightarrow> ('c, 'f) heap \<times> ('e, 'z) population_scheme" where
  "breed parent_picker combiner population_size s =
     (let p = (if truthy population_size then (snd s)\<lparr>intended_size := the population_size\<rparr> else snd s);
          size_before_breed = length (individuals p)
      in fold (breed_step parent_picker combiner size_before_breed)
           [0..<nat (intended_size p - int (length (individuals p)))] (fst s, p))"

subsection \<open>evolve\<close>

text \<open>
  \<open>deepcopy(self)\<close> copies every individual once, also when it stands at several
  positions (the memo of \<open>deepcopy\<close>), and keeps the other attributes.
\<close>

primrec copy_refs :: "ref list \<Rightarrow> (ref \<rightharpoonup> ref) \<Rightarrow> ('c, 'f) heap \<Rightarrow> ('c, 'f) heap \<times> ref list" where
  "copy_refs [] memo h = (h, [])"
| "copy_refs (a # as) memo h =
     (case memo a of
        Some b \<Rightarrow> (case copy_refs as memo h of (h', bs) \<Rightarrow> (h', b # bs))
      | None \<Rightarrow>
          (case copy_refs as (memo(a \<mapsto> length h)) (h @ [h ! a]) of
             (h', bs) \<Rightarrow> (h', length h # bs)))"

definition deepcopy :: "('c, 'f) heap \<times> ('e, 'z) population_scheme \<Rightarrow> ('c, 'f) heap \<times> ('e, 'z) population_scheme" where
  "deepcopy s =
     (case copy_refs (individuals (snd s)) Map.empty (fst s) of
        (h', bs) \<Rightarrow> (h', (snd s)\<lparr>individuals := bs\<rparr>))"

text \<open>
  A step of an evolution is an object with a method \<open>apply(population)\<close>, whose
  return value line 51 drops: a step is what it does to the store and to the
  attributes of the population it is given, or the exception it raises.
\<close>

primrec apply_steps ::
  "('s \<Rightarrow> error + 's) list \<Rightarrow> 's \<Rightarrow> error + 's" where
  "apply_steps [] s = Inr s"
| "apply_steps (step # steps) s = (case step s of Inl e \<Rightarrow> Inl e | Inr s' \<Rightarrow> apply_steps steps s')"

primrec evolve_loop :: "nat \<Rightarrow> ('s \<Rightarrow> error + 's) list \<Rightarrow> 's \<Rightarrow> error + 's" where
  "evolve_loop 0 evolution s = Inr s"
| "evolve_loop (Suc k) evolution s =
     (case apply_steps evolution s of Inl e \<Rightarrow> Inl e | Inr s' \<Rightarrow> evolve_loop k evolution s')"

definition evolve ::
  "(('c, 'f) heap \<times> ('e, 'z) population_scheme \<Rightarrow> error + ('c, 'f) heap \<times> ('e, 'z) population_scheme) list \<Rightarrow> int \<Rightarrow>
   ('c, 'f) heap \<times> ('e, 'z) population_scheme \<Rightarrow> error + ('c, 'f) heap \<times> ('e, 'z) population_scheme" where
  "evolve evolution n s = evolve_loop (nat n) evolution (deepcopy s)"

section \<open>ContestPopulation\<close>

definition ContestPopulation ::
  "('c, 'f) heap \<Rightarrow> 'c list \<Rightarrow> 'e \<Rightarrow> int \<Rightarrow> int \<Rightarrow> bool \<Rightarrow> ('c, 'f) heap \<times> 'e contest_population" where
  "ContestPopulation h chromosomes ef mpr ipm mx =
     (case Population h chromosomes ef mx of
        (h', p) \<Rightarrow>
          (h', \<lparr>eval_function = eval_function p, generation = generation p,
                individuals = individuals p, intended_size = intended_size p,
                maximize = maximize p,
                matches_per_round = mpr, individuals_per_match = ipm\<rparr>))"

definition reset_fitness :: "('c, 'f) heap \<times> ('e, 'z) population_scheme \<Rightarrow> ('c, 'f) heap \<times> ('e, 'z) population_scheme" where
  "reset_fitness s =
     (fold (\<lambda>a h. h[a := (h ! a)\<lparr>fitness := None\<rparr>]) (individuals (snd s)) (fst s), snd s)"

subsection \<open>The tournament\<close>

text \<open>
  \<open>randint(a, b)\<close> raises \<open>ValueError\<close> on an empty range and otherwise returns some
  integer of \<open>[a, b]\<close>: the one picked by the draw \<open>r\<close>, any natural number.
\<close>

definition randint :: "int \<Rightarrow> int \<Rightarrow> nat \<Rightarrow> error + int" where
  "randint a b r = (if b < a then Inl ValueError else Inr (a + int r mod (b - a + 1)))"

text \<open>
  Line 146: the list comprehension \<open>[randint(0, len - 1) for _ in range(ipm - 1)]\<close>,
  over the draws of one round; \<open>js\<close> is the range.
\<close>

primrec random_offsets :: "nat \<Rightarrow> (nat \<Rightarrow> nat) \<Rightarrow> nat list \<Rightarrow> error + nat list" where
  "random_offsets len draws [] = Inr []"
| "random_offsets len draws (j # js) =
     (case randint 0 (int len - 1) (draws j) of
        Inl e \<Rightarrow> Inl e
      | Inr off \<Rightarrow>
          (case random_offsets len draws js of Inl e \<Rightarrow> Inl e | Inr offs \<Rightarrow> Inr (nat off # offs)))"

definition offsets :: "nat \<Rightarrow> int \<Rightarrow> (nat \<Rightarrow> nat) \<Rightarrow> error + nat list" where
  "offsets len ipm draws =
     (case random_offsets len draws [0..<nat (ipm - 1)] of Inl e \<Rightarrow> Inl e | Inr offs \<Rightarrow> Inr (0 # offs))"

text \<open>
  The iterators of lines 147 and 148 as functions of the position:
  \<open>islice(cycle(xs), offset, None)\<close>, \<open>zip(*generators)\<close>, and the first \<open>n\<close> items
  \<open>islice(it, n)\<close>.
\<close>

definition cycle_from :: "'a list \<Rightarrow> nat \<Rightarrow> nat \<Rightarrow> 'a" where
  "cycle_from xs offset i = xs ! ((offset + i) mod length xs)"

definition zip_generators :: "(nat \<Rightarrow> 'a) list \<Rightarrow> nat \<Rightarrow> 'a list" where
  "zip_generators generators i = map (\<lambda>g. g i) generators"

definition islice :: "(nat \<Rightarrow> 'a) \<Rightarrow> nat \<Rightarrow> 'a list" where
  "islice it n = map it [0..<n]"

definition matches :: "ref list \<Rightarrow> nat list \<Rightarrow> ref list list" where
  "matches inds offs = islice (zip_generators (map (cycle_from inds) offs)) (length inds)"

text \<open>
  Lines 150 and 151: \<open>competitor.fitness += score\<close> over the zipped pairs; adding to
  \<open>None\<close> raises \<open>TypeError\<close>.
\<close>

primrec add_scores :: "(ref \<times> int) list \<Rightarrow> ('c, int) heap \<Rightarrow> error + ('c, int) heap" where
  "add_scores [] h = Inr h"
| "add_scores (cs # rest) h =
     (case fitness (h ! fst cs) of
        None \<Rightarrow> Inl TypeError
      | Some f \<Rightarrow> add_scores rest (h[fst cs := (h ! fst cs)\<lparr>fitness := Some (f + snd cs)\<rparr>]))"

text \<open>Line 149 passes the competitors themselves, the objects, to \<open>eval_function\<close>.\<close>

definition play_match :: "(('c, int) individual list \<Rightarrow> int list) \<Rightarrow> ref list \<Rightarrow> ('c, int) heap \<Rightarrow> error + ('c, int) heap" where
  "play_match ef competitors h = add_scores (zip competitors (ef (map (\<lambda>a. h ! a) competitors))) h"

primrec play_matches :: "(('c, int) individual list \<Rightarrow> int list) \<Rightarrow> ref list list \<Rightarrow> ('c, int) heap \<Rightarrow> error + ('c, int) heap" where
  "play_matches ef [] h = Inr h"
| "play_matches ef (m # ms) h =
     (case play_match ef m h of Inl e \<Rightarrow> Inl e | Inr h' \<Rightarrow> play_matches ef ms h')"

text \<open>
  The loop of line 145; \<open>tape r j\<close> is the draw behind the \<open>j\<close>-th call of \<open>randint\<close>
  in round \<open>r\<close>.
\<close>

primrec play_rounds ::
  "(('c, int) individual list \<Rightarrow> int list) \<Rightarrow> int \<Rightarrow> ref list \<Rightarrow> (nat \<Rightarrow> nat \<Rightarrow> nat) \<Rightarrow> nat list \<Rightarrow> ('c, int) heap \<Rightarrow> error + ('c, int) heap" where
  "play_rounds ef ipm inds tape [] h = Inr h"
| "play_rounds ef ipm inds tape (r # rs) h =
     (case offsets (length inds) ipm (tape r) of
        Inl e \<Rightarrow> Inl e
      | Inr offs \<Rightarrow>
          (case play_matches ef (matches inds offs) h of
             Inl e \<Rightarrow> Inl e
           | Inr h' \<Rightarrow> play_rounds ef ipm inds tape rs h'))"

definition contest_evaluate ::
  "bool \<Rightarrow> (nat \<Rightarrow> nat \<Rightarrow> nat) \<Rightarrow> ('c, int) heap \<times> (('c, int) individual list \<Rightarrow> int list, 'z) contest_population_scheme \<Rightarrow>
   error + ('c, int) heap \<times> (('c, int) individual list \<Rightarrow> int list, 'z) contest_population_scheme" where
  "contest_evaluate lazy tape s =
     (if lazy \<and> list_all (\<lambda>a. fitness (fst s ! a) \<noteq> None) (individuals (snd s)) then Inr s
      else
        (case play_rounds (eval_function (snd s)) (individuals_per_match (snd s)) (individuals (snd s)) tape
                [0..<nat (matches_per_round (snd s))]
                (fold (\<lambda>a h. h[a := (h ! a)\<lparr>fitness := Some 0\<rparr>]) (individuals (snd s)) (fst s)) of
           Inl e \<Rightarrow> Inl e
         | Inr h' \<Rightarrow> Inr (h', snd s)))"

subsection \<open>The overrides that invalidate the fitness\<close>

definition contest_map ::
  "(('c, 'f) heap \<Rightarrow> ref \<Rightarrow> ('c, 'f) heap \<times> ref) \<Rightarrow> ('c, 'f) heap \<times> ('e, 'z) population_scheme \<Rightarrow> ('c, 'f) heap \<times> ('e, 'z) population_scheme" where
  "contest_map func s = reset_fitness (map_pop func s)"

definition contest_filter ::
  "(('c, 'f) individual \<Rightarrow> bool) \<Rightarrow> ('c, 'f) heap \<times> ('e, 'z) population_scheme \<Rightarrow> ('c, 'f) heap \<times> ('e, 'z) population_scheme" where
  "contest_filter func s = reset_fitness (filter_pop func s)"

definition contest_survive ::
  "(nat \<Rightarrow> nat \<Rightarrow> nat) \<Rightarrow> (ref list \<Rightarrow> int option list \<Rightarrow> int \<Rightarrow> error + ref list) \<Rightarrow>
   fraction option \<Rightarrow> int option \<Rightarrow> bool \<Rightarrow>
   ('c, int) heap \<times> (('c, int) individual list \<Rightarrow> int list, 'z) contest_population_scheme \<Rightarrow>
   error + ('c, int) heap \<times> (('c, int) individual list \<Rightarrow> int list, 'z) contest_population_scheme" where
  "contest_survive tape choices fraction n luck s =
     (case survive_with (contest_evaluate True tape) choices fraction n luck s of
        Inl e \<Rightarrow> Inl e
      | Inr s' \<Rightarrow> Inr (reset_fitness s'))"

section \<open>Observations\<close>

text \<open>The chromosomes of a population, in the order of its individuals.\<close>

definition chromosomes_of :: "('c, 'f) heap \<times> ('e, 'z) population_scheme \<Rightarrow> 'c list" where
  "chromosomes_of s = map (\<lambda>a. chromosome (fst s ! a)) (individuals (snd s))"

text \<open>
  The sum of the scores that a match returned for the individual \<open>b\<close>, over all the
  slots of the match that \<open>b\<close> holds.
\<close>

definition gained :: "ref \<Rightarrow> ref list \<Rightarrow> int list \<Rightarrow> int" where
  "gained b competitors scores = sum_list (map snd (filter (\<lambda>cs. fst cs = b) (zip competitors scores)))"

text \<open>Every reference of the list points into the store, at an individual with a fitness.\<close>

definition with_fitness :: "('c, 'f) heap \<Rightarrow> ref list \<Rightarrow> bool" where
  "with_fitness h refs = list_all (\<lambda>a. a < length h \<and> fitness (h ! a) \<noteq> None) refs"

text \<open>
  What \<open>Population.map\<close> needs of its \<open>func\<close>: called on an object of the store, it
  returns an object of the store, and no object disappears.
\<close>

definition func_ok :: "(('c, 'f) heap \<Rightarrow> ref \<Rightarrow> ('c, 'f) heap \<times> ref) \<Rightarrow> bool" where
  "func_ok func =
     (\<forall>h a. a < length h \<longrightarrow>
        length h \<le> length (fst (func h a)) \<and> snd (func h a) < length (fst (func h a)))"

text \<open>
  The number of matches in which the individual \<open>a\<close> holds the anchor slot (it is the
  first competitor), and the number of matches in which it takes part at all.
\<close>

definition anchor_slots :: "ref \<Rightarrow> ref list list \<Rightarrow> nat" where
  "anchor_slots a ms = length (filter (\<lambda>m. hd m = a) ms)"

definition participations :: "ref \<Rightarrow> ref list list \<Rightarrow> nat" where
  "participations a ms = length (filter (\<lambda>m. a \<in> set m) ms)"

text \<open>
  The store after one match, read off lines 148 to 151: every object of the store has
  had added to its fitness the scores that \<open>eval_function\<close> returned for the slots it
  holds in the match (\<open>gained\<close>); an object without a fitness is left alone (line 151
  would raise on it before the match ends). The store after the reset of lines 143 and
  144: the fitness of every individual of the population is 0.
\<close>

definition scored ::
  "(('c, int) individual list \<Rightarrow> int list) \<Rightarrow> ref list \<Rightarrow> ('c, int) heap \<Rightarrow> ('c, int) heap" where
  "scored ef m h =
     map (\<lambda>b. (h ! b)\<lparr>fitness :=
            map_option (\<lambda>f. f + gained b m (ef (map (\<lambda>a. h ! a) m))) (fitness (h ! b))\<rparr>)
       [0..<length h]"

definition zeroed :: "ref list \<Rightarrow> ('c, int) heap \<Rightarrow> ('c, int) heap" where
  "zeroed inds h =
     map (\<lambda>b. if b \<in> set inds then (h ! b)\<lparr>fitness := Some 0\<rparr> else h ! b) [0..<length h]"

text \<open>
  The memo of a \<open>deepcopy\<close> in progress, from the store \<open>h0\<close> it started on to the
  store \<open>h\<close> it has reached: different objects have different copies, and a copy is a
  new object with the contents of the original.
\<close>

definition memo_ok :: "('c, 'f) heap \<Rightarrow> ('c, 'f) heap \<Rightarrow> (ref \<rightharpoonup> ref) \<Rightarrow> bool" where
  "memo_ok h0 h memo =
     (inj_on memo (dom memo) \<and>
      (\<forall>a b. memo a = Some b \<longrightarrow> length h0 \<le> b \<and> b < length h \<and> h ! b = h0 ! a))"

text \<open>
  What an evolution step is taken to do: applied to a population, it changes only
  individuals of that population, the individuals it adds are new objects, and no
  object disappears. The operations of \<open>Population\<close> are of this kind.
\<close>

definition step_local ::
  "(('c, 'f) heap \<times> ('e, 'z) population_scheme \<Rightarrow> error + ('c, 'f) heap \<times> ('e, 'z) population_scheme) \<Rightarrow> bool" where
  "step_local step =
     (\<forall>s s'. well_formed s \<and> step s = Inr s' \<longrightarrow>
        length (fst s) \<le> length (fst s')
      \<and> (\<forall>a<length (fst s). a \<notin> set (individuals (snd s)) \<longrightarrow> fst s' ! a = fst s ! a)
      \<and> (\<forall>b\<in>set (individuals (snd s')). b \<in> set (individuals (snd s)) \<or> length (fst s) \<le> b)
      \<and> well_formed s')"

text \<open>
  A state that is apart from the store \<open>h0\<close>: it extends \<open>h0\<close>, leaves it as it was,
  and none of the objects of \<open>h0\<close> is an individual of the population.
\<close>

definition apart :: "('c, 'f) heap \<Rightarrow> ('c, 'f) heap \<times> ('e, 'z) population_scheme \<Rightarrow> bool" where
  "apart h0 s =
     (take (length h0) (fst s) = h0 \<and> length h0 \<le> length (fst s)
      \<and> list_all (\<lambda>b. length h0 \<le> b) (individuals (snd s)) \<and> well_formed s)"

section \<open>Assignments through references\<close>

lemma fold_update_length [simp]:
  "length (fold (\<lambda>a h. h[a := f (h ! a)]) as h) = length h"
  by (induction as arbitrary: h) simp_all

lemma fold_update_nth:
  "b < length h \<Longrightarrow> fold (\<lambda>a h. h[a := f (h ! a)]) as h ! b = (f ^^ count_list as b) (h ! b)"
proof (induction as arbitrary: h)
  case Nil
  show ?case by simp
next
  case (Cons a as)
  have "fold (\<lambda>a h. h[a := f (h ! a)]) (a # as) h ! b =
      (f ^^ count_list as b) (h[a := f (h ! a)] ! b)"
    using Cons.prems by (simp add: Cons.IH)
  also have "\<dots> = (f ^^ count_list (a # as) b) (h ! b)"
    using Cons.prems by (simp add: nth_list_update funpow_swap1)
  finally show ?case .
qed

lemma funpow_pos_property:
  fixes f :: "'a \<Rightarrow> 'a"
  assumes "\<And>x. P (f x)" and "0 < n"
  shows "P ((f ^^ n) x)"
proof -
  obtain m where "n = Suc m" using assms(2) by (cases n) simp_all
  then have "(f ^^ n) x = f ((f ^^ m) x)" by simp
  then show ?thesis by (simp only: assms(1))
qed

lemma fold_update_member:
  assumes "\<And>x. P (f x)" and "b \<in> set as" and "b < length h"
  shows "P (fold (\<lambda>a h. h[a := f (h ! a)]) as h ! b)"
proof -
  have "0 < count_list as b" using assms(2) count_list_0_iff [of as b] by simp
  then show ?thesis
    by (simp add: fold_update_nth [OF assms(3)] funpow_pos_property [of P f, OF assms(1)])
qed

lemma fold_update_other:
  assumes "b \<notin> set as"
  shows "fold (\<lambda>a h. h[a := f (h ! a)]) as h ! b = h ! b"
  using assms by (induction as arbitrary: h) (simp_all)

section \<open>Well-formed states\<close>

lemma Population_well_formed: "well_formed (Population h chromosomes ef mx)"
  by (simp add: well_formed_def Population_def list_all_iff)

lemma tape_choices_ok: "sampler_ok (tape_choices picks)"
  by (auto simp add: sampler_ok_def tape_choices_def split: if_splits)

section \<open>Properties of evaluate\<close>

lemma evaluate_snd [simp]: "snd (evaluate lazy s) = snd s"
  by (simp add: evaluate_def)

lemma evaluate_length [simp]: "length (fst (evaluate lazy s)) = length (fst s)"
  by (simp add: evaluate_def)

lemma evaluate_fitness:
  assumes "well_formed s" and "a \<in> set (individuals (snd s))"
  shows "fitness (fst (evaluate lazy s) ! a) \<noteq> None"
proof -
  have "a < length (fst s)" using assms by (simp add: well_formed_def list_all_iff)
  then show ?thesis
    unfolding evaluate_def fst_conv
    by (intro fold_update_member [where P = "\<lambda>x. fitness x \<noteq> None"] assms(2))
       (simp_all add: individual_evaluate_def)
qed

section \<open>Properties of breed\<close>

lemma breed_step_simps:
  "fst (breed_step pp cb sb k s) =
     fst s @ [Individual (cb k (map chromosome (parents_list
       (pp k (map (\<lambda>a. fst s ! a) (take sb (individuals (snd s))))))))]"
  "snd (breed_step pp cb sb k s) = (snd s)\<lparr>individuals := individuals (snd s) @ [length (fst s)]\<rparr>"
  by (simp_all add: breed_step_def Let_def)

lemma fold_breed_step_snd:
  "snd (fold (breed_step pp cb sb) ks s) =
     (snd s)\<lparr>individuals := individuals (snd s) @ [length (fst s)..<length (fst s) + length ks]\<rparr>"
proof (induction ks arbitrary: s)
  case Nil
  show ?case by simp
next
  case (Cons k ks)
  have "[length (fst s)..<length (fst s) + Suc (length ks)] =
      length (fst s) # [Suc (length (fst s))..<Suc (length (fst s)) + length ks]"
    by (simp add: upt_rec)
  then show ?case
    by (simp add: Cons.IH breed_step_simps)
qed

lemma fold_breed_step_fst:
  assumes "sb \<le> length (individuals (snd s))"
    and "\<forall>a\<in>set (take sb (individuals (snd s))). a < length (fst s)"
  shows "fst (fold (breed_step pp cb sb) ks s) =
     fst s @ map (\<lambda>k. Individual (cb k (map chromosome (parents_list
       (pp k (map (\<lambda>a. fst s ! a) (take sb (individuals (snd s))))))))) ks"
  using assms
proof (induction ks arbitrary: s)
  case Nil
  show ?case by simp
next
  case (Cons k ks)
  let ?s1 = "breed_step pp cb sb k s"
  have tk: "take sb (individuals (snd ?s1)) = take sb (individuals (snd s))"
    using Cons.prems(1) by (simp add: breed_step_simps)
  have snap: "map (\<lambda>a. fst ?s1 ! a) (take sb (individuals (snd s))) =
      map (\<lambda>a. fst s ! a) (take sb (individuals (snd s)))"
    using Cons.prems(2) by (simp add: breed_step_simps nth_append)
  have "fst (fold (breed_step pp cb sb) ks ?s1) =
     fst ?s1 @ map (\<lambda>k. Individual (cb k (map chromosome (parents_list
       (pp k (map (\<lambda>a. fst ?s1 ! a) (take sb (individuals (snd ?s1))))))))) ks"
  proof (rule Cons.IH)
    show "sb \<le> length (individuals (snd ?s1))"
      using Cons.prems(1) by (simp add: breed_step_simps)
    show "\<forall>a\<in>set (take sb (individuals (snd ?s1))). a < length (fst ?s1)"
      using Cons.prems(2) unfolding tk by (auto simp add: breed_step_simps)
  qed
  then show ?case
    unfolding tk snap by (simp add: breed_step_simps)
qed

text \<open>
  C10. \<open>breed(..., population_size=0)\<close> behaves as \<open>breed(...)\<close> with no
  \<open>population_size\<close>: zero is not None but its truth value is false, so line 115 is
  skipped, \<open>intended_size\<close> keeps its stored value, and the population is filled up to
  that stored size (it stays as it is when it is already that large). Zero is the only
  integer whose truth value is false.
\<close>

theorem breed_population_size_zero:
  "breed parent_picker combiner (Some 0) s = breed parent_picker combiner None s
   \<and> intended_size (snd (breed parent_picker combiner (Some 0) s)) = intended_size (snd s)
   \<and> int (length (individuals (snd (breed parent_picker combiner (Some 0) s))))
       = max (int (length (individuals (snd s)))) (intended_size (snd s))"
  by (simp add: breed_def truthy_def Let_def fold_breed_step_snd)

lemma breed_None_closed_form:
  assumes "well_formed s"
  shows "breed pp cb None s =
     (fst s @ map (\<lambda>k. Individual (cb k (map chromosome (parents_list
         (pp k (map (\<lambda>a. fst s ! a) (individuals (snd s))))))))
         [0..<nat (intended_size (snd s) - int (length (individuals (snd s))))],
      (snd s)\<lparr>individuals := individuals (snd s) @
         [length (fst s)..<length (fst s) + nat (intended_size (snd s) - int (length (individuals (snd s))))]\<rparr>)"
proof -
  let ?ks = "[0..<nat (intended_size (snd s) - int (length (individuals (snd s))))]"
  let ?r = "fold (breed_step pp cb (length (individuals (snd s)))) ?ks s"
  have v: "\<forall>a\<in>set (take (length (individuals (snd s))) (individuals (snd s))). a < length (fst s)"
    using assms by (simp add: well_formed_def list_all_iff)
  have b: "breed pp cb None s = ?r"
    by (simp add: breed_def truthy_def Let_def)
  have f: "fst ?r = fst s @ map (\<lambda>k. Individual (cb k (map chromosome (parents_list
         (pp k (map (\<lambda>a. fst s ! a) (individuals (snd s)))))))) ?ks"
    using fold_breed_step_fst [OF _ v, of pp cb ?ks] by simp
  have g: "snd ?r = (snd s)\<lparr>individuals := individuals (snd s) @
         [length (fst s)..<length (fst s) + length ?ks]\<rparr>"
    by (rule fold_breed_step_snd)
  show ?thesis
    unfolding b using f g by (simp add: prod_eq_iff)
qed

text \<open>
  C4. On a well-formed state with \<open>intended_size = N\<close> and fewer than \<open>N\<close>
  individuals, \<open>breed(parent_picker, combiner)\<close> yields exactly \<open>N\<close> individuals; the
  first \<open>len(original)\<close> of them are the original individuals, and every object that
  existed before the call is unchanged; the \<open>j\<close>-th appended individual is a new
  object whose fitness is None and whose chromosome is the combiner's result on the
  chromosomes of the parents that \<open>parent_picker\<close> returned for the snapshot, the
  individuals present before breeding started as they were then. The picker never
  sees offspring: a picker that agrees with \<open>parent_picker\<close> on the snapshot gives the
  same result.
\<close>

theorem breed_fills_to_intended_size:
  assumes "well_formed s" and "intended_size (snd s) = N" and "int (length (individuals (snd s))) < N"
  shows "(let s' = breed parent_picker combiner None s;
              snapshot = map (\<lambda>a. fst s ! a) (individuals (snd s));
              len = length (individuals (snd s))
          in int (length (individuals (snd s'))) = N
           \<and> take len (individuals (snd s')) = individuals (snd s)
           \<and> take (length (fst s)) (fst s') = fst s
           \<and> (\<forall>j < nat (N - int len).
                 individuals (snd s') ! (len + j) = length (fst s) + j
               \<and> fst s' ! (length (fst s) + j) =
                   \<lparr>chromosome = combiner j (map chromosome (parents_list (parent_picker j snapshot))),
                    fitness = None\<rparr>)
           \<and> (\<forall>picker'. (\<forall>k. picker' k snapshot = parent_picker k snapshot) \<longrightarrow>
                 breed picker' combiner None s = s'))"
  using assms(2,3)
  by (simp add: Let_def breed_None_closed_form [OF assms(1)] nth_append Individual_def)

text \<open>
  C4 at a concrete input: two of four individuals are left after a filter, and
  breeding fills the population up to its intended size 4 again.
\<close>

theorem breed_fills_to_intended_size_witness:
  "well_formed (filter_pop (\<lambda>x. 2 < chromosome x) (Population [] [1, 2, 3, 4 :: int] (\<lambda>c. c) True))
   \<and> intended_size (snd (filter_pop (\<lambda>x. 2 < chromosome x) (Population [] [1, 2, 3, 4 :: int] (\<lambda>c. c) True))) = 4
   \<and> int (length (individuals (snd (filter_pop (\<lambda>x. 2 < chromosome x)
         (Population [] [1, 2, 3, 4 :: int] (\<lambda>c. c) True))))) < 4
   \<and> int (length (individuals (snd (breed (\<lambda>k xs. Seq xs) (\<lambda>k cs. sum_list cs + int k) None
         (filter_pop (\<lambda>x. 2 < chromosome x) (Population [] [1, 2, 3, 4 :: int] (\<lambda>c. c) True)))))) = 4"
proof -
  let ?s = "filter_pop (\<lambda>x. 2 < chromosome x) (Population [] [1, 2, 3, 4 :: int] (\<lambda>c. c) True)"
  have w: "well_formed ?s"
    by (simp add: well_formed_def filter_pop_def Population_def Individual_def upt_rec
        numeral_2_eq_2 numeral_3_eq_3)
  have i: "intended_size (snd ?s) = 4"
    by (simp add: filter_pop_def Population_def)
  have l: "int (length (individuals (snd ?s))) < 4"
    by (simp add: filter_pop_def Population_def Individual_def upt_rec numeral_2_eq_2 numeral_3_eq_3)
  have "int (length (individuals (snd (breed (\<lambda>k xs. Seq xs) (\<lambda>k cs. sum_list cs + int k) None ?s)))) = 4"
    by (rule conjunct1 [OF breed_fills_to_intended_size [OF w i l, unfolded Let_def]])
  with w i l show ?thesis by simp
qed

section \<open>Properties of survive\<close>

lemmas survive_eval_simps =
  survive_def survive_with_def resulting_size_def Population_def evaluate_def
  individual_evaluate_def Individual_def sorted_py_def slice_to_def
  upt_rec numeral_2_eq_2 numeral_3_eq_3

text \<open>
  C2, as amended. \<open>Population(chromosomes=[1,2,3,4], eval_function=lambda c: c,
  maximize=True).survive(n=2)\<close> succeeds and leaves exactly two individuals, with the
  chromosomes 4 and 3 in this order: the sort of line 103 is descending when
  \<open>maximize\<close> is true, so the fittest individual comes first.
\<close>

theorem survive_example_order:
  "map_sum id chromosomes_of
     (survive choices None (Some 2) False (Population h [1, 2, 3, 4] (\<lambda>c. c) True))
   = Inr [4, 3 :: int]"
  by (simp add: survive_eval_simps chromosomes_of_def nth_append list_update_append)

text \<open>
  C2, as stated: the same call does not yield the chromosomes in the order 3, 4.
\<close>

theorem survive_example_not_ascending:
  "map_sum id chromosomes_of
     (survive (tape_choices (\<lambda>i. i)) None (Some 2) False (Population [] [1, 2, 3, 4] (\<lambda>c. c) True))
   \<noteq> Inr [3, 4 :: int]"
  by (simp add: survive_eval_simps chromosomes_of_def)

lemma survive_cases:
  assumes "well_formed s"
  shows "survive choices fraction n luck s =
     (case resulting_size fraction n (length (individuals (snd s))) of
        Inl e \<Rightarrow> Inl e
      | Inr rs \<Rightarrow>
          if rs = 0 then Inl RuntimeError
          else if int (length (individuals (snd s))) < rs then Inl ValueError
          else if luck then
            (case choices (individuals (snd s))
                    (map (\<lambda>a. fitness (fst (evaluate True s) ! a)) (individuals (snd s))) rs of
               Inl e \<Rightarrow> Inl e
             | Inr chosen \<Rightarrow> Inr (fst (evaluate True s), (snd s)\<lparr>individuals := chosen\<rparr>))
          else Inr (fst (evaluate True s), (snd s)\<lparr>individuals :=
                 slice_to rs (sorted_py (\<lambda>a. fitness (fst (evaluate True s) ! a)) (maximize (snd s))
                   (individuals (snd s)))\<rparr>))"
proof -
  obtain h' p' where e: "evaluate True s = (h', p')" by (cases "evaluate True s")
  have p': "p' = snd s" using evaluate_snd [of True s] e by simp
  have "\<not> list_ex (\<lambda>a. fitness (h' ! a) = None) (individuals (snd s))"
    using evaluate_fitness [OF assms, of _ True] e by (auto simp add: list_ex_iff)
  then show ?thesis
    by (simp add: survive_def survive_with_def e p' split: sum.splits)
qed

lemma length_slice_to:
  "length (slice_to k xs) = (if 0 \<le> k then min (nat k) (length xs) else nat (int (length xs) + k))"
  by (auto simp add: slice_to_def)

lemma length_sorted_py [simp]: "length (sorted_py key r xs) = length xs"
  by (simp add: sorted_py_def)

lemma resulting_size_cases:
  "resulting_size fraction n len =
     (case fraction of
        None \<Rightarrow> (case n of None \<Rightarrow> Inl ValueError | Some k \<Rightarrow> Inr k)
      | Some f \<Rightarrow> (case f len of Inl e \<Rightarrow> Inl e
           | Inr r \<Rightarrow> (case n of None \<Rightarrow> Inr r | Some k \<Rightarrow> Inr (min r k))))"
  by (simp add: resulting_size_def split: option.splits sum.splits)

text \<open>
  C3, as amended. On a well-formed state, \<open>survive(fraction, n, luck)\<close> computes no
  \<open>resulting_size\<close> if and only if neither \<open>fraction\<close> nor \<open>n\<close> is given or
  \<open>round(fraction*len)\<close> raises; otherwise \<open>resulting_size\<close> is \<open>n\<close> when only \<open>n\<close> is
  given, \<open>round(fraction*len)\<close> when only \<open>fraction\<close> is given, and the smaller of the
  two when both are. \<open>survive\<close> raises an error if and only if no size is computed, or
  the size equals 0, or it exceeds the current population size, or (with \<open>luck=True\<close>
  only) the library sampler \<open>random.choices\<close> itself raises. In every non-error case
  with a \<open>resulting_size\<close> that is not negative, the resulting population's length
  equals \<open>resulting_size\<close>, which is greater than 0 and at most the previous size;
  with \<open>luck=True\<close> this relies on the sampler returning \<open>k\<close> elements of the
  population. The value of \<open>round(fraction*len)\<close> is whatever Python's arithmetic
  gives for the \<open>fraction\<close> at hand.
\<close>

theorem survive_size_law:
  assumes "well_formed s" and "luck \<longrightarrow> sampler_ok choices"
  shows "(let len = length (individuals (snd s));
              target = resulting_size fraction n len;
              out = survive choices fraction n luck s;
              weights = map (\<lambda>a. fitness (fst (evaluate True s) ! a)) (individuals (snd s))
          in (isl target \<longleftrightarrow>
                (fraction = None \<and> n = None) \<or> (\<exists>f. fraction = Some f \<and> isl (f len)))
           \<and> (\<forall>k. fraction = None \<and> n = Some k \<longrightarrow> target = Inr k)
           \<and> (\<forall>f r. fraction = Some f \<and> f len = Inr r \<and> n = None \<longrightarrow> target = Inr r)
           \<and> (\<forall>f r k. fraction = Some f \<and> f len = Inr r \<and> n = Some k \<longrightarrow> target = Inr (min r k))
           \<and> (isl out \<longleftrightarrow>
                isl target \<or> target = Inr 0
                \<or> (\<exists>rs. target = Inr rs \<and> int len < rs)
                \<or> (\<exists>rs. target = Inr rs \<and> luck \<and> isl (choices (individuals (snd s)) weights rs)))
           \<and> (\<forall>s' rs. out = Inr s' \<and> target = Inr rs \<and> 0 \<le> rs \<longrightarrow>
                 int (length (individuals (snd s'))) = rs \<and> 0 < rs \<and> rs \<le> int len))"
proof -
  let ?len = "length (individuals (snd s))"
  let ?target = "resulting_size fraction n ?len"
  let ?out = "survive choices fraction n luck s"
  let ?weights = "map (\<lambda>a. fitness (fst (evaluate True s) ! a)) (individuals (snd s))"
  have t1: "isl ?target \<longleftrightarrow>
      (fraction = None \<and> n = None) \<or> (\<exists>f. fraction = Some f \<and> isl (f ?len))"
    by (auto simp add: resulting_size_cases split: option.splits sum.splits)
  have t2: "\<forall>k. fraction = None \<and> n = Some k \<longrightarrow> ?target = Inr k"
    by (simp add: resulting_size_cases)
  have t3: "\<forall>f r. fraction = Some f \<and> f ?len = Inr r \<and> n = None \<longrightarrow> ?target = Inr r"
    by (simp add: resulting_size_cases)
  have t4: "\<forall>f r k. fraction = Some f \<and> f ?len = Inr r \<and> n = Some k \<longrightarrow> ?target = Inr (min r k)"
    by (simp add: resulting_size_cases)
  have main: "(isl ?out \<longleftrightarrow>
                isl ?target \<or> ?target = Inr 0
                \<or> (\<exists>rs. ?target = Inr rs \<and> int ?len < rs)
                \<or> (\<exists>rs. ?target = Inr rs \<and> luck \<and> isl (choices (individuals (snd s)) ?weights rs)))
           \<and> (\<forall>s' rs. ?out = Inr s' \<and> ?target = Inr rs \<and> 0 \<le> rs \<longrightarrow>
                 int (length (individuals (snd s'))) = rs \<and> 0 < rs \<and> rs \<le> int ?len)"
  proof (cases ?target)
    case (Inl e)
    then show ?thesis
      by (simp add: survive_cases [OF assms(1)])
  next
    case (Inr rs)
    show ?thesis
    proof (cases luck)
      case False
      with Inr show ?thesis
        by (auto simp add: survive_cases [OF assms(1)] length_slice_to)
    next
      case True
      then have ok: "sampler_ok choices" using assms(2) by simp
      show ?thesis
      proof (cases "choices (individuals (snd s)) ?weights rs")
        case (Inl e)
        with Inr True show ?thesis
          by (auto simp add: survive_cases [OF assms(1)])
      next
        case r: (Inr chosen)
        then have "length chosen = nat rs" using ok by (auto simp add: sampler_ok_def)
        with r Inr True show ?thesis
          by (auto simp add: survive_cases [OF assms(1)])
      qed
    qed
  qed
  show ?thesis
    unfolding Let_def
    apply (intro conjI)
         apply (rule t1)
        apply (rule t2)
       apply (rule t3)
      apply (rule t4)
     apply (rule conjunct1 [OF main])
    apply (rule conjunct2 [OF main])
    done
qed

text \<open>
  C3, as stated, fails three times. With \<open>n = -1\<close> the computed size is neither 0 nor
  larger than the population, no error is raised, and three individuals are left:
  the resulting length is not the computed size, which is not positive. With
  \<open>luck=True\<close> and weights that are all zero the sampler of Python 3.9 raises,
  although the computed size 1 is neither 0 nor larger than the population. And with
  the float \<open>inf\<close> as \<open>fraction\<close> it is \<open>round\<close> that raises, although an argument is
  given and no size is computed that could be 0 or too large.
\<close>

theorem survive_size_law_fails:
  "map_sum id (\<lambda>s'. length (individuals (snd s')))
     (survive (tape_choices (\<lambda>i. i)) None (Some (- 1)) False (Population [] [1, 2, 3, 4 :: int] (\<lambda>c. c) True))
     = Inr 3
   \<and> resulting_size None (Some (- 1)) 4 = Inr (- 1)
   \<and> survive (strict_choices (\<lambda>i. i)) None (Some 1) True (Population [] [1, 2, 3, 4 :: int] (\<lambda>c. 0) True)
     = Inl ValueError
   \<and> resulting_size None (Some 1) 4 = Inr 1
   \<and> survive (tape_choices (\<lambda>i. i)) (Some float_inf) (Some 1) False
       (Population [] [1, 2, 3, 4 :: int] (\<lambda>c :: int. c) True)
     = Inl OverflowError"
  by (simp add: survive_eval_simps strict_choices_def float_inf_def)

lemma Fraction_half_of_four: "Fraction (1 / 2) 4 = Inr 2"
  by (simp add: Fraction_def py_round_def Let_def)

text \<open>
  C3 at a concrete input: \<open>survive(fraction=Fraction(1, 2), n=3, luck=True)\<close> on four
  individuals leaves \<open>min(round(2), 3) = 2\<close> of them.
\<close>

theorem survive_size_law_witness:
  "well_formed (Population [] [1, 2, 3, 4 :: int] (\<lambda>c :: int. c) True)
   \<and> sampler_ok (tape_choices (\<lambda>i. i) :: ref list \<Rightarrow> int option list \<Rightarrow> int \<Rightarrow> error + ref list)
   \<and> resulting_size (Some (Fraction (1 / 2))) (Some 3) 4 = Inr 2
   \<and> map_sum id (\<lambda>s'. int (length (individuals (snd s'))))
       (survive (tape_choices (\<lambda>i. i)) (Some (Fraction (1 / 2))) (Some 3) True
          (Population [] [1, 2, 3, 4 :: int] (\<lambda>c :: int. c) True))
     = Inr 2"
proof -
  let ?s = "Population [] [1, 2, 3, 4 :: int] (\<lambda>c :: int. c) True"
  let ?ch = "tape_choices (\<lambda>i. i) :: ref list \<Rightarrow> int option list \<Rightarrow> int \<Rightarrow> error + ref list"
  let ?out = "survive ?ch (Some (Fraction (1 / 2))) (Some 3) True ?s"
  have w: "well_formed ?s" by (rule Population_well_formed)
  have k: "True \<longrightarrow> sampler_ok ?ch" by (simp add: tape_choices_ok)
  have len: "length (individuals (snd ?s)) = 4" by (simp add: Population_def)
  have r: "resulting_size (Some (Fraction (1 / 2))) (Some 3) 4 = Inr 2"
    by (simp add: resulting_size_def Fraction_half_of_four)
  have ne: "individuals (snd ?s) \<noteq> []" by (simp add: Population_def)
  have ch: "\<not> isl (?ch (individuals (snd ?s)) ws 2)" for ws
    using ne by (simp add: tape_choices_def)
  note law = survive_size_law [OF w k, of "Some (Fraction (1 / 2))" "Some 3", unfolded Let_def len r]
  from law ch have "\<not> isl ?out" by simp
  then obtain s' where o: "?out = Inr s'" by (cases ?out) simp_all
  with law have "int (length (individuals (snd s'))) = 2" by simp
  with w k r o show ?thesis by simp
qed

lemma mset_sorted_py [simp]: "mset (sorted_py key r xs) = mset xs"
  by (simp add: sorted_py_def)

lemma set_sorted_py [simp]: "set (sorted_py key r xs) = set xs"
  by (simp add: sorted_py_def)

lemma sorted_py_ordered:
  "(if r then sorted (rev (map key (sorted_py key r xs))) else sorted (map key (sorted_py key r xs)))"
  by (simp add: sorted_py_def rev_map)

lemma sorted_py_stable:
  "filter (\<lambda>a. key a = k) (sorted_py key r xs) = filter (\<lambda>a. key a = k) xs"
  by (simp add: sorted_py_def rev_filter [symmetric] sort_key_stable)

lemma slice_to_take: "\<exists>m. slice_to k xs = take m xs"
  by (auto simp add: slice_to_def)

lemma slice_to_negative:
  "k < 0 \<Longrightarrow> slice_to k xs = take (length xs - nat (- k)) xs"
proof -
  assume "k < 0"
  then have "nat (int (length xs) + k) = length xs - nat (- k)" by linarith
  with \<open>k < 0\<close> show ?thesis by (simp add: slice_to_def)
qed

lemma mset_drop_diff: "mset (drop m ys) = mset ys - mset (take m ys)"
proof -
  have "mset ys = mset (take m ys) + mset (drop m ys)"
    by (simp flip: mset_append)
  then show ?thesis by simp
qed

lemma take_descending:
  fixes key :: "'a \<Rightarrow> 'k :: linorder"
  assumes "sorted (rev (map key ys))" and "a \<in> set (take m ys)" and "b \<in> set (drop m ys)"
  shows "key b \<le> key a"
proof -
  have "rev (map key ys) = rev (map key (drop m ys)) @ rev (map key (take m ys))"
    by (simp flip: rev_append map_append)
  with assms(1) have "\<forall>x\<in>set (rev (map key (drop m ys))). \<forall>y\<in>set (rev (map key (take m ys))). x \<le> y"
    by (simp add: sorted_append)
  with assms(2,3) show ?thesis by simp
qed

lemma take_ascending:
  fixes key :: "'a \<Rightarrow> 'k :: linorder"
  assumes "sorted (map key ys)" and "a \<in> set (take m ys)" and "b \<in> set (drop m ys)"
  shows "key a \<le> key b"
proof -
  have "map key ys = map key (take m ys) @ map key (drop m ys)"
    by (simp flip: map_append)
  with assms(1) have "\<forall>x\<in>set (map key (take m ys)). \<forall>y\<in>set (map key (drop m ys)). x \<le> y"
    by (simp add: sorted_append)
  with assms(2,3) show ?thesis by simp
qed

text \<open>
  C8, as amended. After a successful \<open>survive\<close> with \<open>luck=False\<close> on a well-formed
  state, for fitness values that are ordered totally: every individual of the
  original list has a fitness; the survivors are the slice \<open>[:resulting_size]\<close> of the
  original individuals sorted by fitness, a permutation of them that is descending if
  \<open>maximize\<close> and ascending otherwise, in which individuals of equal fitness keep
  their prior relative order; the slice is the first \<open>resulting_size\<close> of them when
  \<open>resulting_size\<close> is not negative, and all but the last \<open>-resulting_size\<close> of them
  when it is negative; and with \<open>maximize=True\<close> the fitness of every survivor is
  greater than or equal to the fitness of every individual that did not survive (less
  than or equal to it with \<open>maximize=False\<close>). The individuals that did not survive are
  counted with their multiplicity in the original list. The keys are the fitness
  attributes, none of which is None.
\<close>

theorem survive_truncation:
  assumes "well_formed s" and "survive choices fraction n False s = Inr s'"
  shows "(let key = (\<lambda>a. fitness (fst s' ! a));
              srt = sorted_py key (maximize (snd s)) (individuals (snd s));
              survivors = individuals (snd s')
          in (\<forall>a\<in>set (individuals (snd s)). key a \<noteq> None)
           \<and> mset srt = mset (individuals (snd s))
           \<and> (if maximize (snd s) then sorted (rev (map key srt)) else sorted (map key srt))
           \<and> (\<forall>f. filter (\<lambda>a. key a = f) srt = filter (\<lambda>a. key a = f) (individuals (snd s)))
           \<and> (\<exists>rs. resulting_size fraction n (length (individuals (snd s))) = Inr rs
                 \<and> survivors = slice_to rs srt
                 \<and> (0 \<le> rs \<longrightarrow> survivors = take (nat rs) srt)
                 \<and> (rs < 0 \<longrightarrow> survivors = take (length srt - nat (- rs)) srt))
           \<and> (\<forall>a\<in>set survivors. \<forall>b. b \<in># mset (individuals (snd s)) - mset survivors \<longrightarrow>
                 (\<exists>x y. key a = Some x \<and> key b = Some y
                    \<and> (if maximize (snd s) then y \<le> x else x \<le> y))))"
proof -
  let ?h = "fst (evaluate True s)"
  let ?key = "\<lambda>a. fitness (?h ! a)"
  let ?srt = "sorted_py ?key (maximize (snd s)) (individuals (snd s))"
  obtain rs where rs: "resulting_size fraction n (length (individuals (snd s))) = Inr rs"
    and s': "s' = (?h, (snd s)\<lparr>individuals := slice_to rs ?srt\<rparr>)"
    using assms(2) unfolding survive_cases [OF assms(1)]
    by (auto split: sum.splits if_splits)
  have h: "fst s' = ?h" and surv: "individuals (snd s') = slice_to rs ?srt"
    by (simp_all add: s')
  have fit: "\<forall>a\<in>set (individuals (snd s)). ?key a \<noteq> None"
    using evaluate_fitness [OF assms(1), of _ True] by blast
  obtain m where m: "slice_to rs ?srt = take m ?srt"
    using slice_to_take by blast
  have rest: "mset (individuals (snd s)) - mset (take m ?srt) = mset (drop m ?srt)"
    by (simp add: mset_drop_diff)
  have ord: "(if maximize (snd s) then ?key b \<le> ?key a else ?key a \<le> ?key b)"
    if "a \<in> set (take m ?srt)" "b \<in> set (drop m ?srt)" for a b
    using sorted_py_ordered [of "maximize (snd s)" ?key "individuals (snd s)"] that
    by (auto intro: take_descending take_ascending)
  have num: "\<exists>x y. ?key a = Some x \<and> ?key b = Some y
      \<and> (if maximize (snd s) then y \<le> x else x \<le> y)"
    if a: "a \<in> set (take m ?srt)" and b: "b \<in> set (drop m ?srt)" for a b
  proof -
    have "a \<in> set (individuals (snd s))" using in_set_takeD [OF a] by simp
    then obtain x where x: "?key a = Some x" using fit by auto
    have "b \<in> set (individuals (snd s))" using in_set_dropD [OF b] by simp
    then obtain y where y: "?key b = Some y" using fit by auto
    from ord [OF a b] x y show ?thesis by (simp split: if_splits)
  qed
  have c6: "\<forall>a\<in>set (take m ?srt). \<forall>b. b \<in># mset (drop m ?srt) \<longrightarrow>
      (\<exists>x y. ?key a = Some x \<and> ?key b = Some y \<and> (if maximize (snd s) then y \<le> x else x \<le> y))"
    using num by simp
  have c5: "\<exists>r. resulting_size fraction n (length (individuals (snd s))) = Inr r
      \<and> slice_to rs ?srt = slice_to r ?srt
      \<and> (0 \<le> r \<longrightarrow> slice_to rs ?srt = take (nat r) ?srt)
      \<and> (r < 0 \<longrightarrow> slice_to rs ?srt = take (length ?srt - nat (- r)) ?srt)"
  proof (intro exI [of _ rs] conjI impI)
    show "resulting_size fraction n (length (individuals (snd s))) = Inr rs" by (rule rs)
    show "slice_to rs ?srt = slice_to rs ?srt" by (rule refl)
    show "slice_to rs ?srt = take (nat rs) ?srt" if "0 \<le> rs"
      using that by (simp add: slice_to_def)
    show "slice_to rs ?srt = take (length ?srt - nat (- rs)) ?srt" if "rs < 0"
      using that by (rule slice_to_negative)
  qed
  have c3: "(if maximize (snd s) then sorted (rev (map ?key ?srt)) else sorted (map ?key ?srt))"
    by (rule sorted_py_ordered)
  have c4: "\<forall>f. filter (\<lambda>a. ?key a = f) ?srt = filter (\<lambda>a. ?key a = f) (individuals (snd s))"
    by (simp add: sorted_py_stable)
  have c2: "mset ?srt = mset (individuals (snd s))" by simp
  show ?thesis
    unfolding Let_def h surv
    apply (intro conjI)
         apply (rule fit)
        apply (rule c2)
       apply (rule c3)
      apply (rule c4)
     apply (rule c5)
    apply (unfold m rest)
    apply (rule c6)
    done
qed

text \<open>
  C8, as stated, fails: \<open>survive(n=-1)\<close> on the individuals with fitness 1 to 4
  succeeds, and the survivors are the three with fitness 4, 3 and 2, not the sorted
  individuals truncated to the computed size -1.
\<close>

theorem survive_keeps_all_but_last:
  "map_sum id chromosomes_of
     (survive (tape_choices (\<lambda>i. i)) None (Some (- 1)) False (Population [] [1, 2, 3, 4] (\<lambda>c. c) True))
     = Inr [4, 3, 2 :: int]
   \<and> resulting_size None (Some (- 1)) 4 = Inr (- 1)"
  by (simp add: survive_eval_simps chromosomes_of_def)

text \<open>
  C8, as amended, at a concrete input: of the individuals with fitness 1 to 4, the two
  that survive \<open>survive(n=2)\<close> are those with fitness 4 and 3, and the individual at
  reference 1, which did not survive, is not fitter than the survivor at reference 2.
\<close>

theorem survive_truncation_witness:
  "well_formed (Population [] [1, 2, 3, 4 :: int] (\<lambda>c :: int. c) True)
   \<and> survive (tape_choices (\<lambda>i. i)) None (Some 2) False (Population [] [1, 2, 3, 4 :: int] (\<lambda>c :: int. c) True)
     = Inr ([\<lparr>chromosome = 1, fitness = Some 1\<rparr>, \<lparr>chromosome = 2, fitness = Some 2\<rparr>,
             \<lparr>chromosome = 3, fitness = Some 3\<rparr>, \<lparr>chromosome = 4, fitness = Some 4\<rparr>],
            \<lparr>eval_function = \<lambda>c. c, generation = 0, individuals = [3, 2], intended_size = 4,
             maximize = True\<rparr>)
   \<and> (\<exists>x y. fitness ([\<lparr>chromosome = 1 :: int, fitness = Some (1 :: int)\<rparr>, \<lparr>chromosome = 2, fitness = Some 2\<rparr>,
             \<lparr>chromosome = 3, fitness = Some 3\<rparr>, \<lparr>chromosome = 4, fitness = Some 4\<rparr>] ! 2) = Some x
          \<and> fitness ([\<lparr>chromosome = 1 :: int, fitness = Some (1 :: int)\<rparr>, \<lparr>chromosome = 2, fitness = Some 2\<rparr>,
             \<lparr>chromosome = 3, fitness = Some 3\<rparr>, \<lparr>chromosome = 4, fitness = Some 4\<rparr>] ! 1) = Some y
          \<and> y \<le> x)"
proof -
  let ?s = "Population [] [1, 2, 3, 4 :: int] (\<lambda>c :: int. c) True"
  let ?h = "[\<lparr>chromosome = 1 :: int, fitness = Some (1 :: int)\<rparr>, \<lparr>chromosome = 2, fitness = Some 2\<rparr>,
             \<lparr>chromosome = 3, fitness = Some 3\<rparr>, \<lparr>chromosome = 4, fitness = Some 4\<rparr>]"
  let ?p = "\<lparr>eval_function = \<lambda>c :: int. c, generation = 0, individuals = [3, 2], intended_size = 4,
             maximize = True\<rparr>"
  have w: "well_formed ?s" by (rule Population_well_formed)
  have e: "survive (tape_choices (\<lambda>i. i)) None (Some 2) False ?s = Inr (?h, ?p)"
    by (simp add: survive_eval_simps)
  have i: "individuals (snd ?s) = [0, 1, 2, 3]" and m: "maximize (snd ?s)"
    by (simp_all add: Population_def upt_rec numeral_2_eq_2 numeral_3_eq_3)
  have "\<forall>a\<in>set [3, 2 :: nat]. \<forall>b. b \<in># mset [0, 1, 2, 3] - mset [3, 2] \<longrightarrow>
      (\<exists>x y. fitness (?h ! a) = Some x \<and> fitness (?h ! b) = Some y \<and> y \<le> x)"
    using survive_truncation [OF w e] unfolding Let_def i by (simp add: m)
  then have "\<exists>x y. fitness (?h ! 2) = Some x \<and> fitness (?h ! 1) = Some y \<and> y \<le> x"
    by simp
  with w e show ?thesis by (intro conjI)
qed

section \<open>Properties of the tournament\<close>

lemma with_fitness_iff: "with_fitness h refs \<longleftrightarrow> (\<forall>a\<in>set refs. a < length h \<and> fitness (h ! a) \<noteq> None)"
  by (simp add: with_fitness_def list_all_iff)

lemma add_scores_result:
  assumes "with_fitness h (map fst xs)"
  shows "\<exists>h'. add_scores xs h = Inr h' \<and> length h' = length h \<and>
     (\<forall>b<length h. h' ! b = (h ! b)\<lparr>fitness :=
        map_option (\<lambda>f. f + sum_list (map snd (filter (\<lambda>cs. fst cs = b) xs))) (fitness (h ! b))\<rparr>)"
  using assms
proof (induction xs arbitrary: h)
  case Nil
  show ?case by (simp add: option.map_ident)
next
  case (Cons x xs)
  obtain f where f: "fitness (h ! fst x) = Some f" and v: "fst x < length h"
    using Cons.prems by (auto simp add: with_fitness_iff)
  let ?h1 = "h[fst x := (h ! fst x)\<lparr>fitness := Some (f + snd x)\<rparr>]"
  have "with_fitness ?h1 (map fst xs)"
    using Cons.prems by (auto simp add: with_fitness_iff nth_list_update)
  from Cons.IH [OF this] obtain h' where
    r: "add_scores xs ?h1 = Inr h'" and l: "length h' = length ?h1" and
    c: "\<forall>b<length ?h1. h' ! b = (?h1 ! b)\<lparr>fitness :=
        map_option (\<lambda>f. f + sum_list (map snd (filter (\<lambda>cs. fst cs = b) xs))) (fitness (?h1 ! b))\<rparr>"
    by blast
  have "add_scores (x # xs) h = Inr h'" using f r by simp
  moreover have "length h' = length h" using l by simp
  moreover have "\<forall>b<length h. h' ! b = (h ! b)\<lparr>fitness :=
        map_option (\<lambda>f. f + sum_list (map snd (filter (\<lambda>cs. fst cs = b) (x # xs)))) (fitness (h ! b))\<rparr>"
  proof (intro allI impI)
    fix b assume b: "b < length h"
    show "h' ! b = (h ! b)\<lparr>fitness :=
        map_option (\<lambda>f. f + sum_list (map snd (filter (\<lambda>cs. fst cs = b) (x # xs)))) (fitness (h ! b))\<rparr>"
    proof (cases "fst x = b")
      case True
      then show ?thesis using c b f by (simp add: add.assoc)
    next
      case False
      then show ?thesis using c b by simp
    qed
  qed
  ultimately show ?case by blast
qed

lemma play_match_result:
  assumes "with_fitness h m"
  shows "\<exists>h'. play_match ef m h = Inr h' \<and> length h' = length h \<and>
     (\<forall>b<length h. h' ! b = (h ! b)\<lparr>fitness :=
        map_option (\<lambda>f. f + gained b m (ef (map (\<lambda>a. h ! a) m))) (fitness (h ! b))\<rparr>)"
proof -
  have "with_fitness h (map fst (zip m (ef (map (\<lambda>a. h ! a) m))))"
    using assms by (auto simp add: with_fitness_iff dest: set_zip_leftD)
  from add_scores_result [OF this] show ?thesis
    by (simp add: play_match_def gained_def)
qed

lemma play_match_keeps:
  assumes "with_fitness h m" and "with_fitness h refs"
  shows "\<exists>h'. play_match ef m h = Inr h' \<and> length h' = length h \<and> with_fitness h' refs"
proof -
  from play_match_result [OF assms(1), of ef] obtain h' where
    r: "play_match ef m h = Inr h'" and l: "length h' = length h" and
    c: "\<forall>b<length h. h' ! b = (h ! b)\<lparr>fitness :=
        map_option (\<lambda>f. f + gained b m (ef (map (\<lambda>a. h ! a) m))) (fitness (h ! b))\<rparr>"
    by blast
  have "with_fitness h' refs"
    using assms(2) l c by (auto simp add: with_fitness_iff)
  with r l show ?thesis by blast
qed

lemma with_fitness_subset:
  "with_fitness h refs \<Longrightarrow> set m \<subseteq> set refs \<Longrightarrow> with_fitness h m"
  by (auto simp add: with_fitness_iff)

lemma play_matches_keeps:
  assumes "\<forall>m\<in>set ms. set m \<subseteq> set refs" and "with_fitness h refs"
  shows "\<exists>h'. play_matches ef ms h = Inr h' \<and> length h' = length h \<and> with_fitness h' refs"
  using assms
proof (induction ms arbitrary: h)
  case Nil
  then show ?case by simp
next
  case (Cons m ms)
  have "with_fitness h m"
    using Cons.prems by (simp add: with_fitness_subset)
  from play_match_keeps [OF this Cons.prems(2), of ef] obtain h1 where
    r: "play_match ef m h = Inr h1" and l: "length h1 = length h" and w: "with_fitness h1 refs"
    by blast
  from Cons.IH [OF _ w] Cons.prems(1) obtain h' where
    "play_matches ef ms h1 = Inr h'" "length h' = length h1" "with_fitness h' refs"
    by auto
  with r l show ?case by simp
qed

lemma play_matches_const:
  assumes "\<forall>m\<in>set ms. set m \<subseteq> set refs" and "with_fitness h refs"
  shows "\<exists>h'. play_matches (\<lambda>cs. scores) ms h = Inr h' \<and> length h' = length h \<and>
     (\<forall>b<length h. h' ! b = (h ! b)\<lparr>fitness :=
        map_option (\<lambda>f. f + sum_list (map (\<lambda>m. gained b m scores) ms)) (fitness (h ! b))\<rparr>)"
  using assms
proof (induction ms arbitrary: h)
  case Nil
  show ?case by (simp add: option.map_ident)
next
  case (Cons m ms)
  have wm: "with_fitness h m"
    using Cons.prems by (simp add: with_fitness_subset)
  from play_match_result [OF wm, of "\<lambda>cs. scores"] obtain h1 where
    r: "play_match (\<lambda>cs. scores) m h = Inr h1" and l: "length h1 = length h" and
    c: "\<forall>b<length h. h1 ! b = (h ! b)\<lparr>fitness :=
        map_option (\<lambda>f. f + gained b m scores) (fitness (h ! b))\<rparr>"
    by blast
  have w: "with_fitness h1 refs"
    using Cons.prems(2) l c by (auto simp add: with_fitness_iff)
  from Cons.IH [OF _ w] Cons.prems(1) obtain h' where
    r': "play_matches (\<lambda>cs. scores) ms h1 = Inr h'" and l': "length h' = length h1" and
    c': "\<forall>b<length h1. h' ! b = (h1 ! b)\<lparr>fitness :=
        map_option (\<lambda>f. f + sum_list (map (\<lambda>m. gained b m scores) ms)) (fitness (h1 ! b))\<rparr>"
    by auto
  have "\<forall>b<length h. h' ! b = (h ! b)\<lparr>fitness :=
        map_option (\<lambda>f. f + sum_list (map (\<lambda>m. gained b m scores) (m # ms))) (fitness (h ! b))\<rparr>"
    using c c' l by (simp add: option.map_comp comp_def add.assoc)
  with r r' l l' show ?case by simp
qed

lemma length_matches [simp]: "length (matches inds offs) = length inds"
  by (simp add: matches_def islice_def)

lemma matches_nth:
  "i < length inds \<Longrightarrow>
     matches inds offs ! i = map (\<lambda>off. inds ! ((off + i) mod length inds)) offs"
  by (simp add: matches_def islice_def zip_generators_def cycle_from_def comp_def)

lemma matches_subset:
  assumes "m \<in> set (matches inds offs)"
  shows "set m \<subseteq> set inds"
proof -
  from assms obtain i where i: "i < length inds" and m: "m = matches inds offs ! i"
    by (auto simp add: in_set_conv_nth)
  then have "inds \<noteq> []" by auto
  then show ?thesis using i unfolding m by (auto simp add: matches_nth)
qed

lemma map_hd_matches:
  assumes "offs \<noteq> []" and "hd offs = 0"
  shows "map hd (matches inds offs) = inds"
proof (rule nth_equalityI)
  show "length (map hd (matches inds offs)) = length inds" by simp
next
  fix i assume "i < length (map hd (matches inds offs))"
  then have i: "i < length inds" by simp
  then show "map hd (matches inds offs) ! i = inds ! i"
    using assms by (simp add: matches_nth hd_map)
qed

lemma random_offsets_ok:
  assumes "0 < len"
  shows "random_offsets len draws js = Inr (map (\<lambda>j. draws j mod len) js)"
proof (induction js)
  case Nil
  show ?case by simp
next
  case (Cons j js)
  have "randint 0 (int len - 1) (draws j) = Inr (int (draws j mod len))"
    using assms by (simp add: randint_def zmod_int)
  then show ?case by (simp add: Cons.IH)
qed

lemma offsets_ok:
  assumes "0 < len"
  shows "offsets len ipm draws = Inr (0 # map (\<lambda>j. draws j mod len) [0..<nat (ipm - 1)])"
  by (simp add: offsets_def random_offsets_ok [OF assms])

lemma play_rounds_keeps:
  assumes "inds \<noteq> []" and "with_fitness h inds"
  shows "\<exists>h'. play_rounds ef ipm inds tape rs h = Inr h' \<and> length h' = length h \<and> with_fitness h' inds"
  using assms(2)
proof (induction rs arbitrary: h)
  case Nil
  then show ?case by simp
next
  case (Cons r rs)
  let ?offs = "0 # map (\<lambda>j. tape r j mod length inds) [0..<nat (ipm - 1)]"
  have o: "offsets (length inds) ipm (tape r) = Inr ?offs"
    using assms(1) by (simp add: offsets_ok)
  have "\<forall>m\<in>set (matches inds ?offs). set m \<subseteq> set inds"
    using matches_subset by blast
  from play_matches_keeps [OF this Cons.prems, of ef] obtain h1 where
    r: "play_matches ef (matches inds ?offs) h = Inr h1" and l: "length h1 = length h"
    and w: "with_fitness h1 inds"
    by blast
  from Cons.IH [OF w] obtain h' where
    "play_rounds ef ipm inds tape rs h1 = Inr h'" "length h' = length h1" "with_fitness h' inds"
    by blast
  with o r l show ?case by simp
qed

section \<open>Properties of lazy evaluation\<close>

lemma funpow_idem:
  fixes f :: "'a \<Rightarrow> 'a"
  assumes "\<And>x. f (f x) = f x" and "0 < n"
  shows "(f ^^ n) x = f x"
  using assms(2)
proof (induction n)
  case 0
  then show ?case by simp
next
  case (Suc n)
  show ?case
  proof (cases "n = 0")
    case True
    then show ?thesis by simp
  next
    case False
    with Suc.IH have "(f ^^ n) x = f x" by simp
    then show ?thesis by (simp add: assms(1))
  qed
qed

lemma funpow_idem_twice:
  fixes f :: "'a \<Rightarrow> 'a"
  assumes "\<And>x. f (f x) = f x"
  shows "(f ^^ n) ((f ^^ n) x) = (f ^^ n) x"
proof (cases "n = 0")
  case True
  then show ?thesis by simp
next
  case False
  then have "\<And>y. (f ^^ n) y = f y" by (simp add: funpow_idem [of f, OF assms])
  then show ?thesis by (simp add: assms)
qed

lemma individual_evaluate_idem:
  "individual_evaluate ef True (individual_evaluate ef True x) = individual_evaluate ef True x"
  by (simp add: individual_evaluate_def)

lemma evaluate_twice: "evaluate True (evaluate True s) = evaluate True s"
proof -
  let ?f = "individual_evaluate (eval_function (snd s)) True"
  let ?step = "\<lambda>a h. h[a := ?f (h ! a)]"
  let ?h1 = "fold ?step (individuals (snd s)) (fst s)"
  have "fold ?step (individuals (snd s)) ?h1 = ?h1"
  proof (rule nth_equalityI)
    show "length (fold ?step (individuals (snd s)) ?h1) = length ?h1" by simp
  next
    fix b assume "b < length (fold ?step (individuals (snd s)) ?h1)"
    then have b: "b < length (fst s)" by simp
    then have b1: "b < length ?h1" by simp
    show "fold ?step (individuals (snd s)) ?h1 ! b = ?h1 ! b"
      unfolding fold_update_nth [OF b1] fold_update_nth [OF b]
      by (rule funpow_idem_twice) (rule individual_evaluate_idem)
  qed
  then show ?thesis by (simp add: evaluate_def)
qed

lemma add_scores_length: "add_scores xs h = Inr h' \<Longrightarrow> length h' = length h"
proof (induction xs arbitrary: h)
  case Nil
  then show ?case by simp
next
  case (Cons x xs)
  then show ?case by (fastforce split: option.splits)
qed

lemma play_matches_length: "play_matches ef ms h = Inr h' \<Longrightarrow> length h' = length h"
proof (induction ms arbitrary: h)
  case Nil
  then show ?case by simp
next
  case (Cons m ms)
  then show ?case
    by (fastforce simp add: play_match_def split: sum.splits dest: add_scores_length)
qed

lemma play_rounds_length: "play_rounds ef ipm inds tape rs h = Inr h' \<Longrightarrow> length h' = length h"
proof (induction rs arbitrary: h)
  case Nil
  then show ?case by simp
next
  case (Cons r rs)
  then show ?case
    by (fastforce split: sum.splits dest: play_matches_length)
qed

lemma reset_zero_with_fitness:
  assumes "\<forall>a\<in>set inds. a < length h"
  shows "with_fitness (fold (\<lambda>a h. h[a := (h ! a)\<lparr>fitness := Some 0\<rparr>]) inds h) inds"
  unfolding with_fitness_iff
proof
  fix a assume a: "a \<in> set inds"
  then have v: "a < length h" using assms by simp
  have "fitness (fold (\<lambda>a h. h[a := (h ! a)\<lparr>fitness := Some 0\<rparr>]) inds h ! a) \<noteq> None"
    by (rule fold_update_member [where P = "\<lambda>x. fitness x \<noteq> None", OF _ a v]) simp
  with v show "a < length (fold (\<lambda>a h. h[a := (h ! a)\<lparr>fitness := Some 0\<rparr>]) inds h) \<and>
      fitness (fold (\<lambda>a h. h[a := (h ! a)\<lparr>fitness := Some 0\<rparr>]) inds h ! a) \<noteq> None"
    by simp
qed

lemma contest_evaluate_frame:
  assumes "contest_evaluate lazy tape s = Inr s'"
  shows "snd s' = snd s \<and> length (fst s') = length (fst s)"
  using assms
  by (auto simp add: contest_evaluate_def split: if_splits sum.splits dest: play_rounds_length)

lemma contest_evaluate_with_fitness:
  assumes "well_formed s" and "contest_evaluate lazy tape s = Inr s'"
  shows "with_fitness (fst s') (individuals (snd s))"
proof (cases "lazy \<and> list_all (\<lambda>a. fitness (fst s ! a) \<noteq> None) (individuals (snd s))")
  case True
  then have "s' = s" using assms(2) by (simp add: contest_evaluate_def)
  then show ?thesis using True assms(1) by (auto simp add: with_fitness_iff well_formed_def list_all_iff)
next
  case False
  let ?h0 = "fold (\<lambda>a h. h[a := (h ! a)\<lparr>fitness := Some 0\<rparr>]) (individuals (snd s)) (fst s)"
  have r: "play_rounds (eval_function (snd s)) (individuals_per_match (snd s)) (individuals (snd s)) tape
      [0..<nat (matches_per_round (snd s))] ?h0 = Inr (fst s')"
    using False assms(2) by (auto simp add: contest_evaluate_def split: sum.splits)
  have w0: "with_fitness ?h0 (individuals (snd s))"
    using assms(1) by (intro reset_zero_with_fitness) (simp add: well_formed_def list_all_iff)
  show ?thesis
  proof (cases "individuals (snd s) = []")
    case True
    then show ?thesis by (simp add: with_fitness_def)
  next
    case ne: False
    from play_rounds_keeps [OF ne w0, of "eval_function (snd s)" "individuals_per_match (snd s)" tape
        "[0..<nat (matches_per_round (snd s))]"] r
    show ?thesis by auto
  qed
qed

text \<open>
  C9. Calling \<open>evaluate(lazy=True)\<close> a second time changes nothing: for a plain
  population the state after two calls is the state after one; for a contest
  population on a well-formed state, a call that returns leaves a state on which the
  next call, whatever its random draws, returns that same state; and a contest
  population in which every individual already has a fitness is returned as it is.
\<close>

theorem evaluate_lazy_idempotent:
  assumes "well_formed c"
  shows "evaluate True (evaluate True s) = evaluate True s
     \<and> (\<forall>c1. contest_evaluate True tape c = Inr c1 \<longrightarrow> contest_evaluate True tape' c1 = Inr c1)
     \<and> (list_all (\<lambda>a. fitness (fst c ! a) \<noteq> None) (individuals (snd c)) \<longrightarrow>
          contest_evaluate True tape c = Inr c)"
proof (intro conjI allI impI)
  show "evaluate True (evaluate True s) = evaluate True s" by (rule evaluate_twice)
next
  fix c1 assume r: "contest_evaluate True tape c = Inr c1"
  have "with_fitness (fst c1) (individuals (snd c))"
    by (rule contest_evaluate_with_fitness [OF assms r])
  moreover have "snd c1 = snd c" using contest_evaluate_frame [OF r] by simp
  ultimately have "list_all (\<lambda>a. fitness (fst c1 ! a) \<noteq> None) (individuals (snd c1))"
    by (simp add: with_fitness_iff list_all_iff)
  then show "contest_evaluate True tape' c1 = Inr c1"
    by (simp add: contest_evaluate_def)
next
  assume "list_all (\<lambda>a. fitness (fst c ! a) \<noteq> None) (individuals (snd c))"
  then show "contest_evaluate True tape c = Inr c" by (simp add: contest_evaluate_def)
qed

section \<open>Properties of the overrides\<close>

lemma reset_fitness_snd [simp]: "snd (reset_fitness s) = snd s"
  by (simp add: reset_fitness_def)

lemma reset_fitness_None:
  assumes "well_formed s" and "a \<in> set (individuals (snd s))"
  shows "fitness (fst (reset_fitness s) ! a) = None"
proof -
  have v: "a < length (fst s)" using assms by (simp add: well_formed_def list_all_iff)
  show ?thesis
    unfolding reset_fitness_def fst_conv
    by (rule fold_update_member [where P = "\<lambda>x. fitness x = None", OF _ assms(2) v]) simp
qed

lemma map_loop_refs:
  assumes "func_ok func" and "\<forall>a\<in>set as. a < length h"
  shows "length h \<le> length (fst (map_loop func as h)) \<and>
     (\<forall>b\<in>set (snd (map_loop func as h)). b < length (fst (map_loop func as h)))"
  using assms(2)
proof (induction as arbitrary: h)
  case Nil
  show ?case by simp
next
  case (Cons a as)
  obtain h1 b where f: "func h a = (h1, b)" by (cases "func h a")
  have a: "a < length h" using Cons.prems by simp
  have g: "length h \<le> length h1" and b: "b < length h1"
    using assms(1) [unfolded func_ok_def, rule_format, OF a] f by simp_all
  have "\<forall>a\<in>set as. a < length h1" using Cons.prems g by auto
  from Cons.IH [OF this] have
    l: "length h1 \<le> length (fst (map_loop func as h1))" and
    r: "\<forall>b\<in>set (snd (map_loop func as h1)). b < length (fst (map_loop func as h1))"
    by simp_all
  show ?case
    using g b l r by (auto simp add: f split: prod.splits)
qed

lemma map_pop_well_formed:
  assumes "func_ok func" and "well_formed s"
  shows "well_formed (map_pop func s)"
  using map_loop_refs [OF assms(1), of "individuals (snd s)" "fst s"] assms(2)
  by (auto simp add: map_pop_def well_formed_def list_all_iff split: prod.splits)

lemma filter_pop_well_formed:
  assumes "well_formed s"
  shows "well_formed (filter_pop func s)"
  using assms by (auto simp add: filter_pop_def well_formed_def list_all_iff)

lemma set_slice_to: "set (slice_to k xs) \<subseteq> set xs"
  by (auto simp add: slice_to_def dest: in_set_takeD)

lemma survive_with_well_formed:
  assumes "well_formed s" and "luck \<longrightarrow> sampler_ok choices"
    and ev: "\<And>s1. ev s = Inr s1 \<Longrightarrow> snd s1 = snd s \<and> length (fst s1) = length (fst s)"
    and "survive_with ev choices fraction n luck s = Inr s'"
  shows "well_formed s'"
proof -
  obtain rs where rs: "resulting_size fraction n (length (individuals (snd s))) = Inr rs"
    using assms(4) by (auto simp add: survive_with_def split: sum.splits)
  obtain h p where e: "ev s = Inr (h, p)"
    using assms(4) rs by (auto simp add: survive_with_def split: sum.splits)
  have p: "p = snd s" and l: "length h = length (fst s)"
    using ev [OF e] by simp_all
  show ?thesis
  proof (cases luck)
    case True
    then obtain chosen where c: "choices (individuals p) (map (\<lambda>a. fitness (h ! a)) (individuals p)) rs = Inr chosen"
      and s': "s' = (h, p\<lparr>individuals := chosen\<rparr>)"
      using assms(4) rs e by (auto simp add: survive_with_def split: sum.splits if_splits)
    have "set chosen \<subseteq> set (individuals p)"
      using True assms(2) c by (auto simp add: sampler_ok_def)
    then show ?thesis
      using assms(1) p l by (auto simp add: s' well_formed_def list_all_iff)
  next
    case False
    then have s': "s' = (h, p\<lparr>individuals := slice_to rs (sorted_py (\<lambda>a. fitness (h ! a)) (maximize p) (individuals p))\<rparr>)"
      using assms(4) rs e by (auto simp add: survive_with_def split: sum.splits if_splits)
    show ?thesis
      using assms(1) p l set_slice_to [of rs "sorted_py (\<lambda>a. fitness (h ! a)) (maximize p) (individuals p)"]
      by (auto simp add: s' well_formed_def list_all_iff)
  qed
qed

text \<open>
  C6. On a well-formed state of a contest population, after \<open>map\<close>, after \<open>filter\<close>
  and after a \<open>survive\<close> that returns, the fitness of every individual of the
  population is None. \<open>map\<close> is given a \<open>func\<close> that returns objects of the store, and
  \<open>survive(luck=True)\<close> a sampler that returns elements of the population.
\<close>

theorem contest_fitness_invalidated:
  assumes "well_formed s" and "func_ok func" and "luck \<longrightarrow> sampler_ok choices"
  shows "(\<forall>a\<in>set (individuals (snd (contest_map func s))). fitness (fst (contest_map func s) ! a) = None)
     \<and> (\<forall>a\<in>set (individuals (snd (contest_filter keep s))). fitness (fst (contest_filter keep s) ! a) = None)
     \<and> (\<forall>s'. contest_survive tape choices fraction n luck s = Inr s' \<longrightarrow>
           (\<forall>a\<in>set (individuals (snd s')). fitness (fst s' ! a) = None))"
proof (intro conjI allI impI ballI)
  fix a assume "a \<in> set (individuals (snd (contest_map func s)))"
  then show "fitness (fst (contest_map func s) ! a) = None"
    unfolding contest_map_def
    using reset_fitness_None [OF map_pop_well_formed [OF assms(2,1)]] by simp
next
  fix a assume "a \<in> set (individuals (snd (contest_filter keep s)))"
  then show "fitness (fst (contest_filter keep s) ! a) = None"
    unfolding contest_filter_def
    using reset_fitness_None [OF filter_pop_well_formed [OF assms(1)]] by simp
next
  fix s' a
  assume r: "contest_survive tape choices fraction n luck s = Inr s'"
    and a: "a \<in> set (individuals (snd s'))"
  from r obtain s1 where
    s1: "survive_with (contest_evaluate True tape) choices fraction n luck s = Inr s1"
    and s': "s' = reset_fitness s1"
    by (auto simp add: contest_survive_def split: sum.splits)
  have "well_formed s1"
    by (rule survive_with_well_formed [OF assms(1,3) _ s1]) (rule contest_evaluate_frame)
  from reset_fitness_None [OF this] a show "fitness (fst s' ! a) = None"
    by (simp add: s')
qed

section \<open>The fitness after a tournament\<close>

lemma gained_one_zero:
  assumes "length m = 2"
  shows "gained b m [1, 0] = (if hd m = b then 1 else 0)"
proof -
  obtain x y where "m = [x, y]"
    using assms by (cases m; cases "tl m") auto
  then show ?thesis by (simp add: gained_def)
qed

lemma sum_gained_one_zero:
  assumes "\<forall>m\<in>set ms. length m = 2"
  shows "sum_list (map (\<lambda>m. gained b m [1, 0]) ms) = int (anchor_slots b ms)"
  using assms by (induction ms) (simp_all add: anchor_slots_def gained_one_zero)

lemma length_filter_mono:
  assumes "\<forall>x\<in>set xs. P x \<longrightarrow> Q x"
  shows "length (filter P xs) \<le> length (filter Q xs)"
  using assms by (induction xs) auto

lemma anchor_slots_count:
  assumes "map hd ms = inds"
  shows "anchor_slots a ms = count_list inds a"
proof -
  have "count_list (map hd ms) a = length (filter (\<lambda>m. hd m = a) ms)"
    by (induction ms) auto
  then show ?thesis using assms by (simp add: anchor_slots_def)
qed

lemma length_matches_nth:
  "m \<in> set (matches inds offs) \<Longrightarrow> length m = length offs"
  by (auto simp add: in_set_conv_nth matches_nth)

lemma reset_zero_nth:
  assumes "a \<in> set inds" and "a < length h"
  shows "fitness (fold (\<lambda>a h. h[a := (h ! a)\<lparr>fitness := Some 0\<rparr>]) inds h ! a) = Some 0"
  by (rule fold_update_member [where P = "\<lambda>x. fitness x = Some 0", OF _ assms]) simp

text \<open>
  C1, as amended. For a contest population (a well-formed state with at least one
  individual) with \<open>individuals_per_match = 2\<close> and \<open>matches_per_round = 1\<close> and an
  \<open>eval_function\<close> that returns the scores (1, 0) for every match, \<open>evaluate()\<close>
  returns, and afterwards the fitness of every individual is the number of matches in
  which it held the anchor slot, for every choice of the random offset. That number is
  the number of positions the individual has in the population (1 when the individuals
  are distinct objects), it is at least 1, and it is at most the number of matches in
  which the individual took part.
\<close>

theorem contest_fitness_counts_anchor_slots:
  assumes "well_formed s" and "individuals (snd s) \<noteq> []"
    and "individuals_per_match (snd s) = 2" and "matches_per_round (snd s) = 1"
    and "eval_function (snd s) = (\<lambda>competitors. [1, 0])"
  shows "(let inds = individuals (snd s);
              offs = [0, tape 0 0 mod length inds];
              ms = matches inds offs
          in offsets (length inds) 2 (tape 0) = Inr offs
           \<and> (\<exists>h'. contest_evaluate False tape s = Inr (h', snd s)
                \<and> (\<forall>a\<in>set inds. fitness (h' ! a) = Some (int (anchor_slots a ms))
                      \<and> anchor_slots a ms = count_list inds a
                      \<and> 1 \<le> anchor_slots a ms
                      \<and> anchor_slots a ms \<le> participations a ms)))"
proof -
  let ?inds = "individuals (snd s)"
  let ?offs = "[0, tape 0 0 mod length ?inds]"
  let ?ms = "matches ?inds ?offs"
  let ?h0 = "fold (\<lambda>a h. h[a := (h ! a)\<lparr>fitness := Some 0\<rparr>]) ?inds (fst s)"
  have v: "\<forall>a\<in>set ?inds. a < length (fst s)"
    using assms(1) by (simp add: well_formed_def list_all_iff)
  have o: "offsets (length ?inds) 2 (tape 0) = Inr ?offs"
    using assms(2) by (simp add: offsets_ok)
  have w0: "with_fitness ?h0 ?inds"
    by (rule reset_zero_with_fitness [OF v])
  have sub: "\<forall>m\<in>set ?ms. set m \<subseteq> set ?inds"
    using matches_subset by blast
  from play_matches_const [OF sub w0, of "[1, 0]"] obtain h' where
    r: "play_matches (\<lambda>cs. [1, 0]) ?ms ?h0 = Inr h'" and
    c: "\<forall>b<length ?h0. h' ! b = (?h0 ! b)\<lparr>fitness :=
        map_option (\<lambda>f. f + sum_list (map (\<lambda>m. gained b m [1, 0]) ?ms)) (fitness (?h0 ! b))\<rparr>"
    by blast
  have two: "\<forall>m\<in>set ?ms. length m = 2"
    by (auto dest: length_matches_nth)
  have e: "contest_evaluate False tape s = Inr (h', snd s)"
    using o r by (simp add: contest_evaluate_def assms(3,4,5))
  have hd: "map hd ?ms = ?inds"
    by (rule map_hd_matches) simp_all
  have "fitness (h' ! a) = Some (int (anchor_slots a ?ms))
      \<and> anchor_slots a ?ms = count_list ?inds a
      \<and> 1 \<le> anchor_slots a ?ms
      \<and> anchor_slots a ?ms \<le> participations a ?ms" if a: "a \<in> set ?inds" for a
  proof (intro conjI)
    have al: "a < length (fst s)" using v a by simp
    then have "h' ! a = (?h0 ! a)\<lparr>fitness :=
        map_option (\<lambda>f. f + sum_list (map (\<lambda>m. gained a m [1, 0]) ?ms)) (fitness (?h0 ! a))\<rparr>"
      using c by simp
    then show "fitness (h' ! a) = Some (int (anchor_slots a ?ms))"
      by (simp add: reset_zero_nth [OF a al] sum_gained_one_zero [OF two])
    show cnt: "anchor_slots a ?ms = count_list ?inds a"
      by (rule anchor_slots_count [OF hd])
    have "count_list ?inds a \<noteq> 0" using a by (simp add: count_list_0_iff)
    then show "1 \<le> anchor_slots a ?ms" using cnt by simp
    have "\<forall>m\<in>set ?ms. hd m = a \<longrightarrow> a \<in> set m"
      using two by (auto simp add: length_Suc_conv numeral_2_eq_2)
    then show "anchor_slots a ?ms \<le> participations a ?ms"
      unfolding anchor_slots_def participations_def by (rule length_filter_mono)
  qed
  then have per: "\<forall>a\<in>set ?inds. fitness (h' ! a) = Some (int (anchor_slots a ?ms))
      \<and> anchor_slots a ?ms = count_list ?inds a
      \<and> 1 \<le> anchor_slots a ?ms
      \<and> anchor_slots a ?ms \<le> participations a ?ms"
    by blast
  show ?thesis
    unfolding Let_def
    apply (intro conjI exI [of _ h'])
      apply (rule o)
     apply (rule e)
    apply (rule per)
    done
qed

lemma length_scored [simp]: "length (scored ef m h) = length h"
  by (simp add: scored_def)

lemma play_match_scored:
  assumes "with_fitness h m"
  shows "play_match ef m h = Inr (scored ef m h)"
proof -
  from play_match_result [OF assms, of ef] obtain h' where
    r: "play_match ef m h = Inr h'" and l: "length h' = length h" and
    c: "\<forall>b<length h. h' ! b = (h ! b)\<lparr>fitness :=
        map_option (\<lambda>f. f + gained b m (ef (map (\<lambda>a. h ! a) m))) (fitness (h ! b))\<rparr>"
    by blast
  have "h' = scored ef m h"
    by (rule nth_equalityI) (simp_all add: l c scored_def)
  with r show ?thesis by simp
qed

lemma with_fitness_scored:
  assumes "with_fitness h refs"
  shows "with_fitness (scored ef m h) refs"
  using assms by (auto simp add: with_fitness_iff scored_def)

lemma with_fitness_fold_scored:
  assumes "with_fitness h refs"
  shows "with_fitness (fold (scored ef) ms h) refs"
  using assms by (induction ms arbitrary: h) (simp_all add: with_fitness_scored)

lemma play_matches_scored:
  assumes "\<forall>m\<in>set ms. set m \<subseteq> set refs" and "with_fitness h refs"
  shows "play_matches ef ms h = Inr (fold (scored ef) ms h)"
  using assms
proof (induction ms arbitrary: h)
  case Nil
  show ?case by simp
next
  case (Cons m ms)
  have "with_fitness h m"
    using Cons.prems by (simp add: with_fitness_subset)
  then have "play_match ef m h = Inr (scored ef m h)" by (rule play_match_scored)
  moreover have "play_matches ef ms (scored ef m h) = Inr (fold (scored ef) ms (scored ef m h))"
    using Cons.prems by (intro Cons.IH) (simp_all add: with_fitness_scored)
  ultimately show ?case by simp
qed

lemma play_rounds_scored:
  assumes "inds \<noteq> []" and "with_fitness h inds"
  shows "play_rounds ef ipm inds tape rs h =
     Inr (fold (\<lambda>r h. fold (scored ef)
            (matches inds (0 # map (\<lambda>j. tape r j mod length inds) [0..<nat (ipm - 1)])) h) rs h)"
  using assms(2)
proof (induction rs arbitrary: h)
  case Nil
  show ?case by simp
next
  case (Cons r rs)
  let ?offs = "0 # map (\<lambda>j. tape r j mod length inds) [0..<nat (ipm - 1)]"
  have o: "offsets (length inds) ipm (tape r) = Inr ?offs"
    using assms(1) by (simp add: offsets_ok)
  have sub: "\<forall>m\<in>set (matches inds ?offs). set m \<subseteq> set inds"
    using matches_subset by blast
  have p: "play_matches ef (matches inds ?offs) h = Inr (fold (scored ef) (matches inds ?offs) h)"
    by (rule play_matches_scored [OF sub Cons.prems])
  have "with_fitness (fold (scored ef) (matches inds ?offs) h) inds"
    by (rule with_fitness_fold_scored [OF Cons.prems])
  from Cons.IH [OF this] o p show ?case by simp
qed

lemma reset_zeroed:
  assumes "\<forall>a\<in>set inds. a < length h"
  shows "fold (\<lambda>a h. h[a := (h ! a)\<lparr>fitness := Some 0\<rparr>]) inds h = zeroed inds h"
proof (rule nth_equalityI)
  show "length (fold (\<lambda>a h. h[a := (h ! a)\<lparr>fitness := Some 0\<rparr>]) inds h) = length (zeroed inds h)"
    by (simp add: zeroed_def)
next
  fix b assume "b < length (fold (\<lambda>a h. h[a := (h ! a)\<lparr>fitness := Some 0\<rparr>]) inds h)"
  then have b: "b < length h" by simp
  show "fold (\<lambda>a h. h[a := (h ! a)\<lparr>fitness := Some 0\<rparr>]) inds h ! b = zeroed inds h ! b"
  proof (cases "b \<in> set inds")
    case True
    then have "0 < count_list inds b" using count_list_0_iff [of inds b] by simp
    then have "((\<lambda>x. x\<lparr>fitness := Some 0\<rparr>) ^^ count_list inds b) (h ! b) = (h ! b)\<lparr>fitness := Some 0\<rparr>"
      by (intro funpow_idem) simp_all
    then show ?thesis using True b by (simp add: fold_update_nth zeroed_def)
  next
    case False
    then show ?thesis using b by (simp add: fold_update_other zeroed_def)
  qed
qed

lemma count_list_distinct:
  assumes "distinct xs" and "x \<in> set xs"
  shows "count_list xs x = 1"
  using assms by (induction xs) auto

lemma with_fitness_zeroed:
  assumes "\<forall>a\<in>set inds. a < length h"
  shows "with_fitness (zeroed inds h) inds"
  using assms by (simp add: with_fitness_iff zeroed_def)

text \<open>
  C5, as amended. \<open>evaluate\<close> on a contest population (a well-formed state with at
  least one individual and \<open>individuals_per_match\<close> at least 1) that is not skipped by
  \<open>lazy\<close>, for every sequence of random draws. In every round \<open>r\<close> the offsets are 0
  followed by \<open>individuals_per_match - 1\<close> draws, each below the length \<open>L\<close> of the
  population; there are exactly \<open>L\<close> matches; match \<open>i\<close> holds, for each offset, the
  individual at position \<open>(offset + i) mod L\<close> (so equal offsets put the same individual
  into a match more than once), and the first competitors of the matches are the
  individuals in their order: every position is the anchor of exactly one match. An
  individual therefore holds the anchor slot once for each position it has in the
  population, which is exactly once when the individuals are distinct objects. The call
  returns, the population is unchanged, and the store it leaves is the store with the
  fitness of every individual set to 0 in which then, round after round and match after
  match in their order, every individual has had added to its fitness the scores
  returned for the slots it holds in the match.
\<close>

theorem tournament_evaluate:
  assumes "well_formed s" and "individuals (snd s) \<noteq> []"
    and "1 \<le> individuals_per_match (snd s)"
    and "\<not> (lazy \<and> list_all (\<lambda>a. fitness (fst s ! a) \<noteq> None) (individuals (snd s)))"
  shows "(let inds = individuals (snd s);
              len = length inds;
              ipm = individuals_per_match (snd s);
              ef = eval_function (snd s);
              offs = (\<lambda>r. 0 # map (\<lambda>j. tape r j mod len) [0..<nat (ipm - 1)]);
              ms = (\<lambda>r. matches inds (offs r))
          in (\<forall>r. offsets len ipm (tape r) = Inr (offs r)
                \<and> length (offs r) = nat ipm \<and> hd (offs r) = 0 \<and> (\<forall>off\<in>set (offs r). off < len)
                \<and> length (ms r) = len
                \<and> (\<forall>i<len. ms r ! i = map (\<lambda>off. inds ! ((off + i) mod len)) (offs r))
                \<and> map hd (ms r) = inds
                \<and> (\<forall>a. anchor_slots a (ms r) = count_list inds a)
                \<and> (distinct inds \<longrightarrow> (\<forall>a\<in>set inds. anchor_slots a (ms r) = 1)))
           \<and> contest_evaluate lazy tape s =
               Inr (fold (\<lambda>r h. fold (scored ef) (ms r) h) [0..<nat (matches_per_round (snd s))]
                      (zeroed inds (fst s)), snd s))"
proof -
  let ?inds = "individuals (snd s)"
  let ?len = "length ?inds"
  let ?ipm = "individuals_per_match (snd s)"
  let ?ef = "eval_function (snd s)"
  let ?offs = "\<lambda>r. 0 # map (\<lambda>j. tape r j mod ?len) [0..<nat (?ipm - 1)]"
  let ?ms = "\<lambda>r. matches ?inds (?offs r)"
  have round: "offsets ?len ?ipm (tape r) = Inr (?offs r)
      \<and> length (?offs r) = nat ?ipm \<and> hd (?offs r) = 0 \<and> (\<forall>off\<in>set (?offs r). off < ?len)
      \<and> length (?ms r) = ?len
      \<and> (\<forall>i<?len. ?ms r ! i = map (\<lambda>off. ?inds ! ((off + i) mod ?len)) (?offs r))
      \<and> map hd (?ms r) = ?inds
      \<and> (\<forall>a. anchor_slots a (?ms r) = count_list ?inds a)
      \<and> (distinct ?inds \<longrightarrow> (\<forall>a\<in>set ?inds. anchor_slots a (?ms r) = 1))" for r
  proof -
    have o: "offsets ?len ?ipm (tape r) = Inr (?offs r)"
      using assms(2) by (simp add: offsets_ok)
    have lo: "length (?offs r) = nat ?ipm" using assms(3) by simp
    have h0: "hd (?offs r) = 0" by simp
    have ro: "\<forall>off\<in>set (?offs r). off < ?len" using assms(2) by auto
    have lm: "length (?ms r) = ?len" by simp
    have nth: "\<forall>i<?len. ?ms r ! i = map (\<lambda>off. ?inds ! ((off + i) mod ?len)) (?offs r)"
      using matches_nth by blast
    have hd: "map hd (?ms r) = ?inds" by (rule map_hd_matches) simp_all
    have an: "\<forall>a. anchor_slots a (?ms r) = count_list ?inds a"
      using anchor_slots_count [OF hd] by blast
    have di: "distinct ?inds \<longrightarrow> (\<forall>a\<in>set ?inds. anchor_slots a (?ms r) = 1)"
    proof (intro impI ballI)
      fix a assume "distinct ?inds" and "a \<in> set ?inds"
      then have "count_list ?inds a = 1" by (simp add: count_list_distinct)
      with an show "anchor_slots a (?ms r) = 1" by simp
    qed
    show ?thesis
      apply (intro conjI)
              apply (rule o)
             apply (rule lo)
            apply (rule h0)
           apply (rule ro)
          apply (rule lm)
         apply (rule nth)
        apply (rule hd)
       apply (rule an)
      apply (rule di)
      done
  qed
  have v: "\<forall>a\<in>set ?inds. a < length (fst s)"
    using assms(1) by (simp add: well_formed_def list_all_iff)
  have z: "fold (\<lambda>a h. h[a := (h ! a)\<lparr>fitness := Some 0\<rparr>]) ?inds (fst s) = zeroed ?inds (fst s)"
    by (rule reset_zeroed [OF v])
  have w: "with_fitness (zeroed ?inds (fst s)) ?inds"
    by (rule with_fitness_zeroed [OF v])
  have pr: "play_rounds ?ef ?ipm ?inds tape [0..<nat (matches_per_round (snd s))] (zeroed ?inds (fst s))
      = Inr (fold (\<lambda>r h. fold (scored ?ef) (?ms r) h) [0..<nat (matches_per_round (snd s))]
               (zeroed ?inds (fst s)))"
    by (rule play_rounds_scored [OF assms(2) w])
  have ev: "contest_evaluate lazy tape s =
      Inr (fold (\<lambda>r h. fold (scored ?ef) (?ms r) h) [0..<nat (matches_per_round (snd s))]
             (zeroed ?inds (fst s)), snd s)"
    by (simp only: contest_evaluate_def assms(4) if_False z pr sum.case)
  show ?thesis
    unfolding Let_def
    apply (rule conjI)
     apply (rule allI)
     apply (rule round)
    apply (rule ev)
    done
qed

lemma ContestPopulation_well_formed: "well_formed (ContestPopulation h chromosomes ef mpr ipm mx)"
  by (simp add: well_formed_def ContestPopulation_def Population_def list_all_iff)

lemmas contest_eval_simps =
  contest_evaluate_def ContestPopulation_def Population_def Individual_def offsets_def
  randint_def matches_def islice_def zip_generators_def cycle_from_def play_match_def
  upt_rec numeral_2_eq_2

text \<open>
  C1, as stated, fails: with two individuals and the random offset 1 the matches are
  (0, 1) and (1, 0); the individual 0 takes part in both and its fitness is 1.
\<close>

theorem contest_fitness_is_not_participation:
  "map_sum id (\<lambda>s'. map (\<lambda>a. fitness (fst s' ! a)) (individuals (snd s')))
     (contest_evaluate False (\<lambda>r j. 1) (ContestPopulation [] [10, 20 :: int] (\<lambda>competitors. [1, 0]) 1 2 True))
     = Inr [Some 1, Some 1]
   \<and> individuals (snd (ContestPopulation [] [10, 20 :: int] (\<lambda>competitors. [1 :: int, 0]) 1 2 True)) = [0, 1]
   \<and> offsets 2 2 (\<lambda>j. 1) = Inr [0, 1]
   \<and> matches [0, 1] [0, 1] = [[0, 1], [1, 0]]
   \<and> participations 0 (matches [0, 1] [0, 1]) = 2"
  by (simp add: contest_eval_simps participations_def)

text \<open>C1, as amended, at that input: the fitness of individual 0 is 1.\<close>

theorem contest_fitness_counts_anchor_slots_witness:
  "well_formed (ContestPopulation ([] :: (int, int) heap) [10, 20] (\<lambda>competitors :: (int, int) individual list. [1 :: int, 0]) 1 2 True)
   \<and> individuals (snd (ContestPopulation ([] :: (int, int) heap) [10, 20] (\<lambda>competitors :: (int, int) individual list. [1 :: int, 0]) 1 2 True)) \<noteq> []
   \<and> individuals_per_match (snd (ContestPopulation ([] :: (int, int) heap) [10, 20] (\<lambda>competitors :: (int, int) individual list. [1 :: int, 0]) 1 2 True)) = 2
   \<and> matches_per_round (snd (ContestPopulation ([] :: (int, int) heap) [10, 20] (\<lambda>competitors :: (int, int) individual list. [1 :: int, 0]) 1 2 True)) = 1
   \<and> eval_function (snd (ContestPopulation ([] :: (int, int) heap) [10, 20] (\<lambda>competitors :: (int, int) individual list. [1 :: int, 0]) 1 2 True))
       = (\<lambda>competitors. [1, 0])
   \<and> (\<exists>h'. contest_evaluate False (\<lambda>r j. 1)
               (ContestPopulation ([] :: (int, int) heap) [10, 20] (\<lambda>competitors :: (int, int) individual list. [1 :: int, 0]) 1 2 True)
             = Inr (h', snd (ContestPopulation ([] :: (int, int) heap) [10, 20] (\<lambda>competitors :: (int, int) individual list. [1 :: int, 0]) 1 2 True))
           \<and> fitness (h' ! 0) = Some 1)"
proof -
  let ?s = "ContestPopulation ([] :: (int, int) heap) [10, 20] (\<lambda>competitors :: (int, int) individual list. [1 :: int, 0]) 1 2 True"
  have w: "well_formed ?s" by (rule ContestPopulation_well_formed)
  have n: "individuals (snd ?s) \<noteq> []" by (simp add: ContestPopulation_def Population_def)
  have i: "individuals_per_match (snd ?s) = 2" by (simp add: ContestPopulation_def Population_def)
  have m: "matches_per_round (snd ?s) = 1" by (simp add: ContestPopulation_def Population_def)
  have e: "eval_function (snd ?s) = (\<lambda>competitors. [1, 0])"
    by (simp add: ContestPopulation_def Population_def)
  have l: "individuals (snd ?s) = [0, 1]"
    by (simp add: ContestPopulation_def Population_def upt_rec numeral_2_eq_2)
  note t = contest_fitness_counts_anchor_slots [OF w n i m e, of "\<lambda>r j. 1", unfolded Let_def l]
  from t have "\<exists>h'. contest_evaluate False (\<lambda>r j. 1) ?s = Inr (h', snd ?s)
      \<and> (\<forall>a\<in>set [0, 1 :: nat]. fitness (h' ! a) = Some (int (anchor_slots a (matches [0, 1] [0, 1 mod length [0, 1 :: nat]])))
        \<and> anchor_slots a (matches [0, 1] [0, 1 mod length [0, 1 :: nat]]) = count_list [0, 1] a
        \<and> 1 \<le> anchor_slots a (matches [0, 1] [0, 1 mod length [0, 1 :: nat]])
        \<and> anchor_slots a (matches [0, 1] [0, 1 mod length [0, 1 :: nat]])
            \<le> participations a (matches [0, 1] [0, 1 mod length [0, 1 :: nat]]))"
    by (rule conjunct2)
  then obtain h' where r: "contest_evaluate False (\<lambda>r j. 1) ?s = Inr (h', snd ?s)"
    and f: "\<forall>a\<in>set [0, 1 :: nat]. fitness (h' ! a) = Some (int (anchor_slots a (matches [0, 1] [0, 1 mod length [0, 1 :: nat]])))
        \<and> anchor_slots a (matches [0, 1] [0, 1 mod length [0, 1 :: nat]]) = count_list [0, 1] a
        \<and> 1 \<le> anchor_slots a (matches [0, 1] [0, 1 mod length [0, 1 :: nat]])
        \<and> anchor_slots a (matches [0, 1] [0, 1 mod length [0, 1 :: nat]])
            \<le> participations a (matches [0, 1] [0, 1 mod length [0, 1 :: nat]])"
    by (elim exE conjE)
  from f have "fitness (h' ! 0) = Some 1" by simp
  with r have "\<exists>h'. contest_evaluate False (\<lambda>r j. 1) ?s = Inr (h', snd ?s) \<and> fitness (h' ! 0) = Some 1"
    by blast
  with w n i m e show ?thesis by (intro conjI)
qed

text \<open>
  C5, as stated, fails where it says that every individual occupies the anchor slot
  exactly once per round: \<open>survive(n=2, luck=True)\<close> on a contest population of two can
  draw the same object twice, and in the population it leaves, of length 2 with the one
  object at both positions, that object is the first competitor of both matches of a
  round.
\<close>

theorem anchor_slot_held_twice:
  "map_sum id (\<lambda>s'. individuals (snd s'))
     (contest_survive (\<lambda>r j. 0) (tape_choices (\<lambda>i. 0)) None (Some 2) True
        (ContestPopulation ([] :: (int, int) heap) [10, 20] (\<lambda>competitors :: (int, int) individual list. [1 :: int, 0]) 1 2 True))
     = Inr [0, 0]
   \<and> offsets 2 2 (\<lambda>j. 0) = Inr [0, 0]
   \<and> matches [0, 0] [0, 0] = [[0, 0], [0, 0]]
   \<and> anchor_slots 0 (matches [0, 0] [0, 0]) = 2"
  by (simp add: contest_survive_def survive_with_def resulting_size_def tape_choices_def
      reset_fitness_def contest_eval_simps anchor_slots_def sorted_py_def slice_to_def)

text \<open>
  C5, as amended, at a concrete input: a new contest population of two, two per match,
  one round, and draws that give the offset 1. The matches are (0, 1) and (1, 0), and
  both individuals end with the fitness 1.
\<close>

theorem tournament_evaluate_witness:
  "well_formed (ContestPopulation ([] :: (int, int) heap) [10, 20] (\<lambda>competitors :: (int, int) individual list. [1 :: int, 0]) 1 2 True)
   \<and> individuals (snd (ContestPopulation ([] :: (int, int) heap) [10, 20] (\<lambda>competitors :: (int, int) individual list. [1 :: int, 0]) 1 2 True)) \<noteq> []
   \<and> 1 \<le> individuals_per_match (snd (ContestPopulation ([] :: (int, int) heap) [10, 20] (\<lambda>competitors :: (int, int) individual list. [1 :: int, 0]) 1 2 True))
   \<and> \<not> (False \<and> list_all (\<lambda>a. fitness (fst (ContestPopulation ([] :: (int, int) heap) [10, 20] (\<lambda>competitors :: (int, int) individual list. [1 :: int, 0]) 1 2 True) ! a) \<noteq> None)
              (individuals (snd (ContestPopulation ([] :: (int, int) heap) [10, 20] (\<lambda>competitors :: (int, int) individual list. [1 :: int, 0]) 1 2 True))))
   \<and> map hd (matches [0, 1] [0, 1]) = [0, 1]
   \<and> anchor_slots 0 (matches [0, 1] [0, 1]) = 1
   \<and> contest_evaluate False (\<lambda>r j. 1) (ContestPopulation ([] :: (int, int) heap) [10, 20] (\<lambda>competitors :: (int, int) individual list. [1 :: int, 0]) 1 2 True)
     = Inr ([\<lparr>chromosome = 10, fitness = Some 1\<rparr>, \<lparr>chromosome = 20, fitness = Some 1\<rparr>],
            snd (ContestPopulation ([] :: (int, int) heap) [10, 20] (\<lambda>competitors :: (int, int) individual list. [1 :: int, 0]) 1 2 True))"
proof -
  let ?s = "ContestPopulation ([] :: (int, int) heap) [10, 20] (\<lambda>competitors :: (int, int) individual list. [1 :: int, 0]) 1 2 True"
  let ?h = "[\<lparr>chromosome = 10 :: int, fitness = None :: int option\<rparr>, \<lparr>chromosome = 20, fitness = None\<rparr>]"
  let ?z = "[\<lparr>chromosome = 10 :: int, fitness = Some (0 :: int)\<rparr>, \<lparr>chromosome = 20, fitness = Some 0\<rparr>]"
  let ?y = "[\<lparr>chromosome = 10 :: int, fitness = Some (1 :: int)\<rparr>, \<lparr>chromosome = 20, fitness = Some 0\<rparr>]"
  let ?x = "[\<lparr>chromosome = 10 :: int, fitness = Some (1 :: int)\<rparr>, \<lparr>chromosome = 20, fitness = Some 1\<rparr>]"
  have w: "well_formed ?s" by (rule ContestPopulation_well_formed)
  have n: "individuals (snd ?s) \<noteq> []" by (simp add: ContestPopulation_def Population_def)
  have i: "1 \<le> individuals_per_match (snd ?s)" by (simp add: ContestPopulation_def Population_def)
  have z: "\<not> (False \<and> list_all (\<lambda>a. fitness (fst ?s ! a) \<noteq> None) (individuals (snd ?s)))" by simp
  have l: "individuals (snd ?s) = [0, 1]"
    by (simp add: ContestPopulation_def Population_def upt_rec numeral_2_eq_2)
  have p: "individuals_per_match (snd ?s) = 2" by (simp add: ContestPopulation_def Population_def)
  have q: "matches_per_round (snd ?s) = 1" by (simp add: ContestPopulation_def Population_def)
  have e: "eval_function (snd ?s) = (\<lambda>competitors. [1, 0])"
    by (simp add: ContestPopulation_def Population_def)
  have f: "fst ?s = ?h"
    by (simp add: ContestPopulation_def Population_def Individual_def)
  have u: "[0..<nat (2 - 1)] = [0]" "[0..<nat 1] = [0]" by (simp_all add: upt_rec)
  have len: "length [0, 1 :: nat] = 2" by simp
  have md: "(1 :: nat) mod 2 = 1" by simp
  have m: "matches [0, 1] [0, 1] = [[0, 1], [1, 0]]"
    by (simp add: matches_def islice_def zip_generators_def cycle_from_def upt_rec numeral_2_eq_2)
  have z0: "zeroed [0, 1] ?h = ?z"
    by (simp add: zeroed_def upt_rec numeral_2_eq_2)
  have s1: "scored (\<lambda>competitors. [1, 0]) [0, 1] ?z = ?y"
    by (simp add: scored_def gained_def upt_rec numeral_2_eq_2)
  have s2: "scored (\<lambda>competitors. [1, 0]) [1, 0] ?y = ?x"
    by (simp add: scored_def gained_def upt_rec numeral_2_eq_2)
  note t = tournament_evaluate [where tape = "\<lambda>r j. 1" and lazy = False, OF w n i z, unfolded Let_def l p q e f u len list.map md]
  note r = spec [OF conjunct1 [OF t]]
  from r have a: "map hd (matches [0, 1] [0, 1]) = [0, 1]" by (elim conjE)
  from r have "distinct [0, 1 :: nat] \<longrightarrow> (\<forall>a\<in>set [0, 1 :: nat]. anchor_slots a (matches [0, 1] [0, 1]) = 1)"
    by (elim conjE)
  then have b: "anchor_slots 0 (matches [0, 1] [0, 1]) = 1" by simp
  from t have "contest_evaluate False (\<lambda>r j. 1) ?s =
      Inr (fold (\<lambda>r h. fold (scored (\<lambda>competitors. [1, 0])) (matches [0, 1] [0, 1]) h) [0 :: nat] (zeroed [0, 1] ?h), snd ?s)"
    by (rule conjunct2)
  then have c: "contest_evaluate False (\<lambda>r j. 1) ?s = Inr (?x, snd ?s)"
    by (simp only: m z0 fold_simps s1 s2 id_apply comp_apply)
  show ?thesis
    apply (intro conjI)
          apply (rule w)
         apply (rule n)
        apply (rule i)
       apply (rule z)
      apply (rule a)
     apply (rule b)
    apply (rule c)
    done
qed

text \<open>
  C9 at a concrete input: a first lazy evaluation of a new contest population of two,
  and a second one with other draws.
\<close>

theorem evaluate_lazy_idempotent_witness:
  "well_formed (ContestPopulation ([] :: (int, int) heap) [10, 20] (\<lambda>competitors :: (int, int) individual list. [1 :: int, 0]) 1 2 True)
   \<and> contest_evaluate True (\<lambda>r j. 1) (ContestPopulation ([] :: (int, int) heap) [10, 20] (\<lambda>competitors :: (int, int) individual list. [1 :: int, 0]) 1 2 True)
     = Inr ([\<lparr>chromosome = 10, fitness = Some 1\<rparr>, \<lparr>chromosome = 20, fitness = Some 1\<rparr>],
            \<lparr>eval_function = \<lambda>competitors. [1, 0], generation = 0, individuals = [0, 1],
             intended_size = 2, maximize = True, matches_per_round = 1, individuals_per_match = 2\<rparr>)
   \<and> contest_evaluate True (\<lambda>r j. 0)
       ([\<lparr>chromosome = 10 :: int, fitness = Some 1\<rparr>, \<lparr>chromosome = 20, fitness = Some 1\<rparr>],
        \<lparr>eval_function = \<lambda>competitors. [1 :: int, 0], generation = 0, individuals = [0, 1],
         intended_size = 2, maximize = True, matches_per_round = 1, individuals_per_match = 2\<rparr>)
     = Inr ([\<lparr>chromosome = 10, fitness = Some 1\<rparr>, \<lparr>chromosome = 20, fitness = Some 1\<rparr>],
            \<lparr>eval_function = \<lambda>competitors. [1, 0], generation = 0, individuals = [0, 1],
             intended_size = 2, maximize = True, matches_per_round = 1, individuals_per_match = 2\<rparr>)"
proof -
  let ?c = "ContestPopulation ([] :: (int, int) heap) [10, 20] (\<lambda>competitors :: (int, int) individual list. [1 :: int, 0]) 1 2 True"
  let ?c1 = "([\<lparr>chromosome = 10 :: int, fitness = Some 1\<rparr>, \<lparr>chromosome = 20, fitness = Some 1\<rparr>],
            \<lparr>eval_function = \<lambda>competitors. [1 :: int, 0], generation = 0, individuals = [0, 1],
             intended_size = 2, maximize = True, matches_per_round = 1, individuals_per_match = 2\<rparr>)"
  have w: "well_formed ?c" by (rule ContestPopulation_well_formed)
  have e: "contest_evaluate True (\<lambda>r j. 1) ?c = Inr ?c1"
    by (simp add: contest_eval_simps)
  from evaluate_lazy_idempotent [OF w, of _ "\<lambda>r j. 1" "\<lambda>r j. 0"] e
  have "contest_evaluate True (\<lambda>r j. 0) ?c1 = Inr ?c1" by blast
  with w e show ?thesis by (intro conjI)
qed

lemma func_ok_id: "func_ok (\<lambda>h a. (h, a))"
  by (simp add: func_ok_def)

text \<open>
  C6 at a concrete input: \<open>survive(n=1, luck=True)\<close> on a contest population of two
  evaluates both, keeps the first and resets its fitness.
\<close>

theorem contest_fitness_invalidated_witness:
  "well_formed (ContestPopulation ([] :: (int, int) heap) [10, 20] (\<lambda>competitors :: (int, int) individual list. [1 :: int, 0]) 1 2 True)
   \<and> func_ok (\<lambda>(h :: (int, int) individual list) a. (h, a))
   \<and> sampler_ok (tape_choices (\<lambda>i. i))
   \<and> contest_survive (\<lambda>r j. 1) (tape_choices (\<lambda>i. i)) None (Some 1) True
       (ContestPopulation ([] :: (int, int) heap) [10, 20] (\<lambda>competitors :: (int, int) individual list. [1 :: int, 0]) 1 2 True)
     = Inr ([\<lparr>chromosome = 10, fitness = None\<rparr>, \<lparr>chromosome = 20, fitness = Some 1\<rparr>],
            \<lparr>eval_function = \<lambda>competitors. [1, 0], generation = 0, individuals = [0],
             intended_size = 2, maximize = True, matches_per_round = 1, individuals_per_match = 2\<rparr>)
   \<and> list_all (\<lambda>a. fitness ([\<lparr>chromosome = 10 :: int, fitness = None\<rparr>, \<lparr>chromosome = 20, fitness = Some 1\<rparr>] ! a) = None) [0]"
proof -
  let ?c = "ContestPopulation ([] :: (int, int) heap) [10, 20] (\<lambda>competitors :: (int, int) individual list. [1 :: int, 0]) 1 2 True"
  let ?h = "[\<lparr>chromosome = 10 :: int, fitness = None\<rparr>, \<lparr>chromosome = 20, fitness = Some (1 :: int)\<rparr>]"
  let ?p = "\<lparr>eval_function = \<lambda>competitors :: (int, int) individual list. [1 :: int, 0], generation = 0, individuals = [0],
             intended_size = 2, maximize = True, matches_per_round = 1, individuals_per_match = 2\<rparr>"
  have w: "well_formed ?c" by (rule ContestPopulation_well_formed)
  have f: "func_ok (\<lambda>(h :: (int, int) individual list) a. (h, a))" by (rule func_ok_id)
  have k: "True \<longrightarrow> sampler_ok (tape_choices (\<lambda>i. i))" by (simp add: tape_choices_ok)
  have e: "contest_survive (\<lambda>r j. 1) (tape_choices (\<lambda>i. i)) None (Some 1) True ?c = Inr (?h, ?p)"
    by (simp add: contest_survive_def survive_with_def resulting_size_def tape_choices_def
        reset_fitness_def contest_eval_simps)
  from contest_fitness_invalidated [OF w f k, of _ "\<lambda>r j. 1" None "Some 1"] e
  have "\<forall>a\<in>set (individuals (snd (?h, ?p))). fitness (fst (?h, ?p) ! a) = None" by blast
  then have "list_all (\<lambda>a. fitness (?h ! a) = None) [0]" by simp
  with w f k e show ?thesis by simp
qed

section \<open>Properties of evolve\<close>

lemma copy_refs_memo:
  assumes "\<forall>a\<in>set as. a < length h0" and "length h0 \<le> length h" and "take (length h0) h = h0"
    and "memo_ok h0 h memo"
  shows "\<exists>memo'. snd (copy_refs as memo h) = map (\<lambda>a. the (memo' a)) as
     \<and> set as \<subseteq> dom memo'
     \<and> memo \<subseteq>\<^sub>m memo'
     \<and> memo_ok h0 (fst (copy_refs as memo h)) memo'
     \<and> take (length h) (fst (copy_refs as memo h)) = h"
  using assms
proof (induction as arbitrary: memo h)
  case Nil
  then show ?case by (intro exI [of _ memo]) simp
next
  case (Cons a as)
  have a: "a < length h0" using Cons.prems(1) by simp
  have as: "\<forall>a\<in>set as. a < length h0" using Cons.prems(1) by simp
  show ?case
  proof (cases "memo a")
    case (Some b)
    from Cons.IH [OF as Cons.prems(2,3,4)] obtain memo' where
      m: "snd (copy_refs as memo h) = map (\<lambda>a. the (memo' a)) as" "set as \<subseteq> dom memo'"
        "memo \<subseteq>\<^sub>m memo'" "memo_ok h0 (fst (copy_refs as memo h)) memo'"
        "take (length h) (fst (copy_refs as memo h)) = h"
      by blast
    have "memo' a = Some b" using m(3) Some by (auto simp add: map_le_def dom_def)
    then show ?thesis
      using m Some by (intro exI [of _ memo']) (auto split: prod.splits)
  next
    case None
    let ?h1 = "h @ [h ! a]"
    let ?m1 = "memo(a \<mapsto> length h)"
    have ha: "h ! a = h0 ! a"
      using a Cons.prems(2,3) by (metis nth_take)
    have p2: "length h0 \<le> length ?h1" using Cons.prems(2) by simp
    have p3: "take (length h0) ?h1 = h0" using Cons.prems(2,3) by simp
    have ran: "memo x \<noteq> Some (length h)" for x
      using Cons.prems(4) by (auto simp add: memo_ok_def)
    have inj: "inj_on ?m1 (dom ?m1)"
      using Cons.prems(4) None
      by (auto simp add: memo_ok_def inj_on_def dom_def ran)
    have p4: "memo_ok h0 ?h1 ?m1"
      unfolding memo_ok_def
    proof (intro conjI allI impI)
      show "inj_on ?m1 (dom ?m1)" by (rule inj)
    next
      fix x b assume "?m1 x = Some b"
      then show "length h0 \<le> b" using Cons.prems(2,4) by (auto simp add: memo_ok_def split: if_splits)
    next
      fix x b assume "?m1 x = Some b"
      then show "b < length ?h1" using Cons.prems(4) by (auto simp add: memo_ok_def less_Suc_eq split: if_splits)
    next
      fix x b assume "?m1 x = Some b"
      then show "?h1 ! b = h0 ! x"
        using Cons.prems(4) ha by (auto simp add: memo_ok_def nth_append split: if_splits)
    qed
    from Cons.IH [OF as p2 p3 p4] obtain memo' where
      m: "snd (copy_refs as ?m1 ?h1) = map (\<lambda>a. the (memo' a)) as" "set as \<subseteq> dom memo'"
        "?m1 \<subseteq>\<^sub>m memo'" "memo_ok h0 (fst (copy_refs as ?m1 ?h1)) memo'"
        "take (length ?h1) (fst (copy_refs as ?m1 ?h1)) = ?h1"
      by blast
    have ma: "memo' a = Some (length h)" using m(3) by (auto simp add: map_le_def)
    have le: "memo \<subseteq>\<^sub>m memo'"
      using m(3) None by (auto simp add: map_le_def dom_def split: if_splits)
    have "take (length h) (take (length ?h1) (fst (copy_refs as ?m1 ?h1))) = take (length h) ?h1"
      using m(5) by simp
    then have tk: "take (length h) (fst (copy_refs as ?m1 ?h1)) = h"
      by (simp add: min_def)
    show ?thesis
      using m(1,2,4) ma le tk None
      by (intro exI [of _ memo']) (auto split: prod.splits)
  qed
qed

lemma deepcopy_memo:
  assumes "well_formed s"
  shows "\<exists>memo. individuals (snd (deepcopy s)) = map (\<lambda>a. the (memo a)) (individuals (snd s))
     \<and> set (individuals (snd s)) \<subseteq> dom memo
     \<and> memo_ok (fst s) (fst (deepcopy s)) memo
     \<and> take (length (fst s)) (fst (deepcopy s)) = fst s"
proof -
  have v: "\<forall>a\<in>set (individuals (snd s)). a < length (fst s)"
    using assms by (simp add: well_formed_def list_all_iff)
  have m: "memo_ok (fst s) (fst s) Map.empty" by (simp add: memo_ok_def)
  have f: "fst (deepcopy s) = fst (copy_refs (individuals (snd s)) Map.empty (fst s))"
    and i: "individuals (snd (deepcopy s)) = snd (copy_refs (individuals (snd s)) Map.empty (fst s))"
    by (simp_all add: deepcopy_def case_prod_beta)
  from copy_refs_memo [OF v _ _ m] show ?thesis
    unfolding f i by simp
qed

lemma deepcopy_snd:
  "snd (deepcopy s) = (snd s)\<lparr>individuals := individuals (snd (deepcopy s))\<rparr>"
  by (simp add: deepcopy_def case_prod_beta)

lemma deepcopy_apart:
  assumes "well_formed s"
  shows "apart (fst s) (deepcopy s)"
proof -
  from deepcopy_memo [OF assms] obtain memo where
    i: "individuals (snd (deepcopy s)) = map (\<lambda>a. the (memo a)) (individuals (snd s))"
    and d: "set (individuals (snd s)) \<subseteq> dom memo"
    and m: "memo_ok (fst s) (fst (deepcopy s)) memo"
    and t: "take (length (fst s)) (fst (deepcopy s)) = fst s"
    by blast
  have l: "length (fst s) \<le> length (fst (deepcopy s))"
    using t by (metis length_take min.cobounded1 min_def nat_le_linear)
  have "\<forall>b\<in>set (individuals (snd (deepcopy s))). length (fst s) \<le> b \<and> b < length (fst (deepcopy s))"
    unfolding i using d m by (fastforce simp add: memo_ok_def dom_def)
  then show ?thesis
    using t l by (simp add: apart_def well_formed_def list_all_iff)
qed

lemma deepcopy_contents:
  assumes "well_formed s"
  shows "map (\<lambda>b. fst (deepcopy s) ! b) (individuals (snd (deepcopy s))) =
      map (\<lambda>a. fst s ! a) (individuals (snd s))"
proof -
  from deepcopy_memo [OF assms] obtain memo where
    i: "individuals (snd (deepcopy s)) = map (\<lambda>a. the (memo a)) (individuals (snd s))"
    and d: "set (individuals (snd s)) \<subseteq> dom memo"
    and m: "memo_ok (fst s) (fst (deepcopy s)) memo"
    by blast
  show ?thesis
    unfolding i using d m by (fastforce simp add: memo_ok_def dom_def)
qed

lemma deepcopy_sharing:
  assumes "well_formed s" and "i < length (individuals (snd s))" and "j < length (individuals (snd s))"
  shows "individuals (snd (deepcopy s)) ! i = individuals (snd (deepcopy s)) ! j
     \<longleftrightarrow> individuals (snd s) ! i = individuals (snd s) ! j"
proof -
  from deepcopy_memo [OF assms(1)] obtain memo where
    c: "individuals (snd (deepcopy s)) = map (\<lambda>a. the (memo a)) (individuals (snd s))"
    and d: "set (individuals (snd s)) \<subseteq> dom memo"
    and m: "memo_ok (fst s) (fst (deepcopy s)) memo"
    by blast
  have di: "individuals (snd s) ! i \<in> dom memo" and dj: "individuals (snd s) ! j \<in> dom memo"
    using d assms(2,3) by (auto simp add: subset_iff)
  have "inj_on memo (dom memo)" using m by (simp add: memo_ok_def)
  then have "memo (individuals (snd s) ! i) = memo (individuals (snd s) ! j)
      \<longleftrightarrow> individuals (snd s) ! i = individuals (snd s) ! j"
    using di dj by (auto simp add: inj_on_def)
  moreover have "the (memo (individuals (snd s) ! i)) = the (memo (individuals (snd s) ! j))
      \<longleftrightarrow> memo (individuals (snd s) ! i) = memo (individuals (snd s) ! j)"
    using di dj by (auto simp add: dom_def)
  ultimately show ?thesis
    using assms(2,3) by (simp add: c)
qed

lemma step_local_apart:
  assumes "step_local step" and "apart h0 s" and "step s = Inr s'"
  shows "apart h0 s'"
proof -
  have w: "well_formed s" and t: "take (length h0) (fst s) = h0" and l: "length h0 \<le> length (fst s)"
    and n: "\<forall>b\<in>set (individuals (snd s)). length h0 \<le> b"
    using assms(2) by (simp_all add: apart_def list_all_iff)
  from assms(1) w assms(3) have
    g: "length (fst s) \<le> length (fst s')" and
    f: "\<forall>a<length (fst s). a \<notin> set (individuals (snd s)) \<longrightarrow> fst s' ! a = fst s ! a" and
    b: "\<forall>b\<in>set (individuals (snd s')). b \<in> set (individuals (snd s)) \<or> length (fst s) \<le> b" and
    w': "well_formed s'"
    unfolding step_local_def by blast+
  have eq: "fst s' ! i = fst s ! i" if "i < length h0" for i
  proof -
    have "i \<notin> set (individuals (snd s))" using n that by auto
    then show ?thesis using f that l by simp
  qed
  have "take (length h0) (fst s') = take (length h0) (fst s)"
    using l g by (intro nth_take_lemma) (simp_all add: eq)
  moreover have "\<forall>b\<in>set (individuals (snd s')). length h0 \<le> b"
    using b n l by fastforce
  ultimately show ?thesis
    using t l g w' by (simp add: apart_def list_all_iff)
qed

lemma apply_steps_apart:
  assumes "list_all step_local steps" and "apart h0 s" and "apply_steps steps s = Inr s'"
  shows "apart h0 s'"
  using assms
proof (induction steps arbitrary: s)
  case Nil
  then show ?case by simp
next
  case (Cons step steps)
  from Cons.prems(3) obtain s1 where s1: "step s = Inr s1" and r: "apply_steps steps s1 = Inr s'"
    by (auto split: sum.splits)
  have "apart h0 s1"
    using Cons.prems(1,2) s1 by (auto intro: step_local_apart)
  with Cons.IH r Cons.prems(1) show ?case by simp
qed

lemma apply_steps_append:
  "apply_steps (xs @ ys) s = (case apply_steps xs s of Inl e \<Rightarrow> Inl e | Inr s' \<Rightarrow> apply_steps ys s')"
  by (induction xs arbitrary: s) (simp_all split: sum.splits)

lemma evolve_loop_flat:
  "evolve_loop k evolution s = apply_steps (concat (replicate k evolution)) s"
  by (induction k arbitrary: s) (simp_all add: apply_steps_append split: sum.splits)

lemma evaluate_local:
  "step_local (\<lambda>s :: ('c, 'f) heap \<times> ('c \<Rightarrow> 'f, 'z) population_scheme. Inr (evaluate lazy s))"
  unfolding step_local_def
proof (intro allI impI conjI ballI)
  fix s s' :: "('c, 'f) heap \<times> ('c \<Rightarrow> 'f, 'z) population_scheme"
  assume a: "well_formed s \<and> Inr (evaluate lazy s) = (Inr s' :: error + _)"
  then have s': "s' = evaluate lazy s" and w: "well_formed s" by simp_all
  show "length (fst s) \<le> length (fst s')" by (simp add: s')
  show "well_formed s'" using w by (simp add: s' well_formed_def)
  show "b \<in> set (individuals (snd s)) \<or> length (fst s) \<le> b"
    if "b \<in> set (individuals (snd s'))" for b
    using that by (simp add: s')
  show "fst s' ! a = fst s ! a" if "a < length (fst s)" "a \<notin> set (individuals (snd s))" for a
    using that by (simp add: s' evaluate_def fold_update_other)
qed

lemma survive_local:
  assumes "luck \<longrightarrow> sampler_ok choices"
  shows "step_local (survive choices fraction n luck ::
    ('c, 'f :: linorder) heap \<times> ('c \<Rightarrow> 'f, 'z) population_scheme \<Rightarrow> _)"
  unfolding step_local_def
proof (intro allI impI conjI ballI)
  fix s s' :: "('c, 'f) heap \<times> ('c \<Rightarrow> 'f, 'z) population_scheme"
  assume a: "well_formed s \<and> survive choices fraction n luck s = Inr s'"
  then have w: "well_formed s" and r: "survive choices fraction n luck s = Inr s'" by simp_all
  have h: "fst s' = fst (evaluate True s)"
    using r unfolding survive_cases [OF w] by (auto split: sum.splits if_splits)
  have sub: "set (individuals (snd s')) \<subseteq> set (individuals (snd s))"
  proof (cases luck)
    case True
    then have ok: "\<And>pop weights k chosen. choices pop weights k = Inr chosen \<Longrightarrow> set chosen \<subseteq> set pop"
      using assms by (simp add: sampler_ok_def)
    show ?thesis
      using r True unfolding survive_cases [OF w]
      by (auto split: sum.splits if_splits dest!: ok)
  next
    case False
    then show ?thesis
      using r set_slice_to unfolding survive_cases [OF w]
      by (fastforce split: sum.splits if_splits)
  qed
  show "length (fst s) \<le> length (fst s')" by (simp add: h)
  show "well_formed s'"
    using w sub by (auto simp add: well_formed_def list_all_iff h)
  show "b \<in> set (individuals (snd s)) \<or> length (fst s) \<le> b"
    if "b \<in> set (individuals (snd s'))" for b
    using that sub by auto
  show "fst s' ! a = fst s ! a" if "a < length (fst s)" "a \<notin> set (individuals (snd s))" for a
    using that by (simp add: h evaluate_def fold_update_other)
qed

text \<open>
  C7. \<open>evolve(evolution, n)\<close> on a well-formed state, with steps that work on the
  population they are given. When it returns, every object that existed before the
  call, the individuals of the original population among them, is as it was
  (chromosome and fitness); the attributes of the original population are those of
  the argument, which the model passes by value. The individuals of the returned
  population are all new objects. The result is the deep copy threaded through the
  steps of the evolution, \<open>n\<close> times in sequence. The deep copy itself leaves the old
  objects as they were, consists of new objects with the contents of the originals,
  keeps the other attributes and shares objects exactly where the original does. The
  original is also intact after each step on the way, whatever steps come after it.
\<close>

theorem evolve_leaves_original:
  assumes "well_formed s" and "list_all step_local evolution" and "evolve evolution n s = Inr s'"
  shows "take (length (fst s)) (fst s') = fst s
     \<and> list_all (\<lambda>b. length (fst s) \<le> b \<and> b < length (fst s')) (individuals (snd s'))
     \<and> evolve evolution n s = apply_steps (concat (replicate (nat n) evolution)) (deepcopy s)
     \<and> take (length (fst s)) (fst (deepcopy s)) = fst s
     \<and> list_all (\<lambda>b. length (fst s) \<le> b \<and> b < length (fst (deepcopy s))) (individuals (snd (deepcopy s)))
     \<and> map (\<lambda>b. fst (deepcopy s) ! b) (individuals (snd (deepcopy s))) =
         map (\<lambda>a. fst s ! a) (individuals (snd s))
     \<and> snd (deepcopy s) = (snd s)\<lparr>individuals := individuals (snd (deepcopy s))\<rparr>
     \<and> (\<forall>i j. i < length (individuals (snd s)) \<and> j < length (individuals (snd s)) \<longrightarrow>
           (individuals (snd (deepcopy s)) ! i = individuals (snd (deepcopy s)) ! j
            \<longleftrightarrow> individuals (snd s) ! i = individuals (snd s) ! j))
     \<and> (\<forall>steps s1. list_all step_local steps \<and> apply_steps steps (deepcopy s) = Inr s1 \<longrightarrow>
           take (length (fst s)) (fst s1) = fst s)"
proof -
  have d: "apart (fst s) (deepcopy s)" by (rule deepcopy_apart [OF assms(1)])
  have flat: "evolve evolution n s = apply_steps (concat (replicate (nat n) evolution)) (deepcopy s)"
    by (simp add: evolve_def evolve_loop_flat)
  have "list_all step_local (concat (replicate (nat n) evolution))"
    using assms(2) by (auto simp add: list_all_iff)
  from apply_steps_apart [OF this d] assms(3) flat have a: "apart (fst s) s'" by simp
  have c1: "take (length (fst s)) (fst s') = fst s" using a by (simp add: apart_def)
  have c2: "list_all (\<lambda>b. length (fst s) \<le> b \<and> b < length (fst s')) (individuals (snd s'))"
    using a by (auto simp add: apart_def well_formed_def list_all_iff)
  have c4: "take (length (fst s)) (fst (deepcopy s)) = fst s" using d by (simp add: apart_def)
  have c5: "list_all (\<lambda>b. length (fst s) \<le> b \<and> b < length (fst (deepcopy s))) (individuals (snd (deepcopy s)))"
    using d by (auto simp add: apart_def well_formed_def list_all_iff)
  have c9: "\<forall>steps s1. list_all step_local steps \<and> apply_steps steps (deepcopy s) = Inr s1 \<longrightarrow>
           take (length (fst s)) (fst s1) = fst s"
    using apply_steps_apart [OF _ d] by (auto simp add: apart_def)
  have c8: "\<forall>i j. i < length (individuals (snd s)) \<and> j < length (individuals (snd s)) \<longrightarrow>
           (individuals (snd (deepcopy s)) ! i = individuals (snd (deepcopy s)) ! j
            \<longleftrightarrow> individuals (snd s) ! i = individuals (snd s) ! j)"
    using deepcopy_sharing [OF assms(1)] by blast
  show ?thesis
    apply (intro conjI)
            apply (rule c1)
           apply (rule c2)
          apply (rule flat)
         apply (rule c4)
        apply (rule c5)
       apply (rule deepcopy_contents [OF assms(1)])
      apply (rule deepcopy_snd)
     apply (rule c8)
    apply (rule c9)
    done
qed

text \<open>
  C7 at a concrete input: one round of evaluate and \<open>survive(n=2)\<close> on four new
  individuals. The copies are evaluated and two of them survive; the four originals
  still have no fitness.
\<close>

theorem evolve_leaves_original_witness:
  "well_formed (Population ([] :: (int, int) heap) [1, 2, 3, 4] (\<lambda>c :: int. c) True)
   \<and> list_all step_local
       [\<lambda>s :: (int, int) individual list \<times> (int \<Rightarrow> int) population. Inr (evaluate False s),
        survive (tape_choices (\<lambda>i. i)) None (Some 2) False]
   \<and> evolve [\<lambda>s. Inr (evaluate False s), survive (tape_choices (\<lambda>i. i)) None (Some 2) False] 1
       (Population ([] :: (int, int) heap) [1, 2, 3, 4] (\<lambda>c :: int. c) True)
     = Inr ([\<lparr>chromosome = 1, fitness = None\<rparr>, \<lparr>chromosome = 2, fitness = None\<rparr>,
             \<lparr>chromosome = 3, fitness = None\<rparr>, \<lparr>chromosome = 4, fitness = None\<rparr>,
             \<lparr>chromosome = 1, fitness = Some 1\<rparr>, \<lparr>chromosome = 2, fitness = Some 2\<rparr>,
             \<lparr>chromosome = 3, fitness = Some 3\<rparr>, \<lparr>chromosome = 4, fitness = Some 4\<rparr>],
            \<lparr>eval_function = \<lambda>c :: int. c, generation = 0, individuals = [7, 6], intended_size = 4,
             maximize = True\<rparr>)
   \<and> take (length (fst (Population ([] :: (int, int) heap) [1, 2, 3, 4] (\<lambda>c :: int. c) True)))
        [\<lparr>chromosome = 1, fitness = None\<rparr>, \<lparr>chromosome = 2, fitness = None\<rparr>,
         \<lparr>chromosome = 3, fitness = None\<rparr>, \<lparr>chromosome = 4, fitness = None\<rparr>,
         \<lparr>chromosome = 1, fitness = Some 1\<rparr>, \<lparr>chromosome = 2, fitness = Some 2\<rparr>,
         \<lparr>chromosome = 3, fitness = Some 3\<rparr>, \<lparr>chromosome = 4, fitness = Some 4\<rparr>]
     = fst (Population ([] :: (int, int) heap) [1, 2, 3, 4] (\<lambda>c :: int. c) True)"
proof -
  let ?s = "Population ([] :: (int, int) heap) [1, 2, 3, 4] (\<lambda>c :: int. c) True"
  let ?ev = "[\<lambda>s :: (int, int) individual list \<times> (int \<Rightarrow> int) population. Inr (evaluate False s),
        survive (tape_choices (\<lambda>i. i)) None (Some 2) False]"
  let ?h = "[\<lparr>chromosome = 1 :: int, fitness = None\<rparr>, \<lparr>chromosome = 2, fitness = None\<rparr>,
             \<lparr>chromosome = 3, fitness = None\<rparr>, \<lparr>chromosome = 4, fitness = None\<rparr>,
             \<lparr>chromosome = 1, fitness = Some (1 :: int)\<rparr>, \<lparr>chromosome = 2, fitness = Some 2\<rparr>,
             \<lparr>chromosome = 3, fitness = Some 3\<rparr>, \<lparr>chromosome = 4, fitness = Some 4\<rparr>]"
  let ?p = "\<lparr>eval_function = \<lambda>c :: int. c, generation = 0, individuals = [7, 6], intended_size = 4,
             maximize = True\<rparr>"
  have w: "well_formed ?s" by (rule Population_well_formed)
  have l: "list_all step_local ?ev"
    by (simp add: evaluate_local survive_local)
  have d: "deepcopy ?s = (fst ?s @ [\<lparr>chromosome = 1, fitness = None\<rparr>, \<lparr>chromosome = 2, fitness = None\<rparr>,
             \<lparr>chromosome = 3, fitness = None\<rparr>, \<lparr>chromosome = 4, fitness = None\<rparr>],
             (snd ?s)\<lparr>individuals := [4, 5, 6, 7]\<rparr>)"
    by (simp add: deepcopy_def Population_def Individual_def upt_rec numeral_2_eq_2 numeral_3_eq_3)
  have e: "evolve ?ev 1 ?s = Inr (?h, ?p)"
    unfolding evolve_def d
    by (simp add: survive_def survive_with_def resulting_size_def Population_def evaluate_def
      individual_evaluate_def Individual_def sorted_py_def slice_to_def
      upt_rec numeral_2_eq_2 numeral_3_eq_3)
  have "take (length (fst ?s)) (fst (?h, ?p)) = fst ?s"
    by (rule conjunct1 [OF evolve_leaves_original [OF w l e]])
  then have "take (length (fst ?s)) ?h = fst ?s" by simp
  with w l e show ?thesis by (intro conjI)
qed

end
